theory Spec2Isabelle
  imports Complex_Main "HOL-Library.List_Lexorder" "HOL-Library.Char_ord"
begin

section \<open>Data model\<close>

text \<open>
  The engine lives in \<^verbatim>\<open>utils/memory.ts\<close>: a skip list over score entries, a write-ahead
  log and the per-game \<^verbatim>\<open>LeaderboardEngine\<close>. This theory embeds that file, which is the
  one the request handler imports. \<^verbatim>\<open>utils/dummy.ts\<close> holds another variant of the same
  classes that nothing imports; where it differs, the text says so.

  A JavaScript \<^verbatim>\<open>number\<close> is modelled by the values the engine can meet: the integers
  (scores sent by clients, the result of \<^verbatim>\<open>parseInt\<close>), \<^verbatim>\<open>-Infinity\<close> (the score of the
  header sentinel) and \<^verbatim>\<open>NaN\<close> (the result of \<^verbatim>\<open>parseInt\<close> on text that is no number).
  Integers are unbounded here; the embedding is faithful for integers of magnitude below
  \<open>2 ^ 53\<close>, which a double represents exactly.
\<close>

datatype number = Num int | NegInfinity | NaN

text \<open>The operators \<^verbatim>\<open>>\<close> and \<^verbatim>\<open>===\<close> on numbers: every comparison with \<^verbatim>\<open>NaN\<close> is false.\<close>

fun num_gt :: "number \<Rightarrow> number \<Rightarrow> bool" where
  "num_gt (Num a) (Num b) = (a > b)"
| "num_gt (Num a) NegInfinity = True"
| "num_gt _ _ = False"

fun num_eq :: "number \<Rightarrow> number \<Rightarrow> bool" where
  "num_eq (Num a) (Num b) = (a = b)"
| "num_eq NegInfinity NegInfinity = True"
| "num_eq _ _ = False"

text \<open>
  A \<^verbatim>\<open>Date\<close> holds a time value: milliseconds since the epoch, or \<^verbatim>\<open>NaN\<close> for an
  invalid date (\<open>None\<close>).
\<close>

datatype Date = Date (time_value: "int option")

text \<open>
  \<^verbatim>\<open>IScoreDetails\<close> and \<^verbatim>\<open>ILeaderboard\<close> of \<^verbatim>\<open>types.ts\<close>. TypeScript types are erased at run
  time, and \<^verbatim>\<open>WriteAheadLog.recover\<close> can produce an entry whose \<^verbatim>\<open>game_id\<close> is
  \<^verbatim>\<open>undefined\<close>: the field is a \<open>string option\<close>, \<open>None\<close> standing for \<^verbatim>\<open>undefined\<close>.
  Strings are lists of 8-bit code units, compared lexicographically as \<^verbatim>\<open><\<close> compares
  JavaScript strings.
\<close>

record IScoreDetails =
  user_id :: string
  game_id :: "string option"
  score :: number
  ctime :: Date

record ILeaderboard =
  user_id :: string
  score :: number
  rank :: int
  game_id :: "string option"

text \<open>
  A \<^verbatim>\<open>SkipListNode\<close>. Objects are referred to by address: a forward pointer is
  \<open>Some a\<close> for the node at address \<open>a\<close> of the store and \<open>None\<close> for \<^verbatim>\<open>null\<close>. The field
  \<^verbatim>\<open>created_at\<close> is written by the constructor and read nowhere; it is left out.
\<close>

record SkipListNode =
  user_id :: string
  game_id :: "string option"
  score :: number
  forward :: "nat option list"

text \<open>
  A \<^verbatim>\<open>SkipList\<close> together with the store of the nodes it owns: the node at address \<open>a\<close>
  is \<open>nodes sl ! a\<close>, and a new node is allocated at the end of the store. No node of a
  skip list is reachable from outside it, so the store can be kept per list.
\<close>

record SkipList =
  nodes :: "SkipListNode list"
  header :: nat
  level :: nat
  maxLevel :: nat
  probability :: real

section \<open>The skip list\<close>

text \<open>The constructors of \<^verbatim>\<open>SkipListNode\<close> and \<^verbatim>\<open>SkipList\<close>.\<close>

definition SkipListNode_new :: "string \<Rightarrow> string option \<Rightarrow> number \<Rightarrow> nat \<Rightarrow> SkipListNode" where
  "SkipListNode_new uid gid sc lvl =
     \<lparr>SkipListNode.user_id = uid, game_id = gid, score = sc,
      forward = replicate (lvl + 1) None\<rparr>"

definition SkipList_new :: SkipList where
  "SkipList_new =
     \<lparr>nodes = [SkipListNode_new [] (Some []) NegInfinity 20],
      header = 0, level = 0, maxLevel = 20, probability = 1 / 2\<rparr>"

text \<open>
  Reading \<^verbatim>\<open>a.forward[i]\<close>: an index past the end of a JavaScript array reads
  \<^verbatim>\<open>undefined\<close>, which every test of the source treats as \<^verbatim>\<open>null\<close>.
\<close>

definition fwd :: "SkipListNode list \<Rightarrow> nat \<Rightarrow> nat \<Rightarrow> nat option" where
  "fwd h a i =
     (if a < length h \<and> i < length (forward (h ! a)) then forward (h ! a) ! i else None)"

text \<open>Writing \<^verbatim>\<open>xs[i] = v\<close>: a JavaScript array grows when the index is past its end.\<close>

definition array_set :: "'a option list \<Rightarrow> nat \<Rightarrow> 'a option \<Rightarrow> 'a option list" where
  "array_set xs i v =
     (if i < length xs then xs[i := v] else xs @ replicate (i - length xs) None @ [v])"

text \<open>
  \<^verbatim>\<open>randomLevel\<close>. The argument \<open>rnd\<close> gives the values that the successive calls of
  \<^verbatim>\<open>Math.random()\<close> return; the loop draws once per iteration, so the draw made at
  \<open>level\<close> is \<open>rnd level\<close>.
\<close>

function randomLevel_loop :: "(nat \<Rightarrow> real) \<Rightarrow> SkipList \<Rightarrow> nat \<Rightarrow> nat" where
  "randomLevel_loop rnd sl lvl =
     (if rnd lvl < probability sl \<and> lvl < maxLevel sl
      then randomLevel_loop rnd sl (Suc lvl) else lvl)"
  by pat_completeness auto
termination
  by (relation "measure (\<lambda>(rnd, sl, lvl). maxLevel sl - lvl)") auto

declare randomLevel_loop.simps [simp del]

definition randomLevel :: "(nat \<Rightarrow> real) \<Rightarrow> SkipList \<Rightarrow> nat" where
  "randomLevel rnd sl = randomLevel_loop rnd sl 0"

text \<open>
  The loop condition of the search in \<^verbatim>\<open>insertScore\<close>: the node \<open>n\<close> comes before the
  entry in ranking order (higher score, or equal score and smaller user id).
\<close>

definition precedes :: "SkipListNode \<Rightarrow> IScoreDetails \<Rightarrow> bool" where
  "precedes n e =
     (num_gt (SkipListNode.score n) (IScoreDetails.score e) \<or>
      (num_eq (SkipListNode.score n) (IScoreDetails.score e) \<and>
       SkipListNode.user_id n < IScoreDetails.user_id e))"

text \<open>
  The inner \<^verbatim>\<open>while\<close> loop at level \<open>i\<close>. A loop over pointers need not end on an
  arbitrary store, so the result is an option: \<open>None\<close> when the loop does not return.
\<close>

partial_function (option) search_level ::
  "SkipListNode list \<Rightarrow> IScoreDetails \<Rightarrow> nat \<Rightarrow> nat \<Rightarrow> nat option" where
  "search_level h e i current =
     (case fwd h current i of
        None \<Rightarrow> Some current
      | Some n \<Rightarrow> if precedes (h ! n) e then search_level h e i n else Some current)"

declare search_level.simps [code]

text \<open>The outer \<^verbatim>\<open>for\<close> loop, from level \<open>i\<close> down to \<open>0\<close>, filling \<^verbatim>\<open>update\<close>.\<close>

fun search_levels ::
  "SkipListNode list \<Rightarrow> IScoreDetails \<Rightarrow> nat \<Rightarrow> nat \<Rightarrow> nat option list \<Rightarrow>
   (nat \<times> nat option list) option" where
  "search_levels h e 0 current update =
     (case search_level h e 0 current of
        None \<Rightarrow> None
      | Some c \<Rightarrow> Some (c, array_set update 0 (Some c)))"
| "search_levels h e (Suc i) current update =
     (case search_level h e (Suc i) current of
        None \<Rightarrow> None
      | Some c \<Rightarrow> search_levels h e i c (array_set update (Suc i) (Some c)))"

text \<open>
  The loop \<^verbatim>\<open>for (i = this.level + 1; i <= newLevel; i++) update[i] = this.header\<close>,
  with \<open>n\<close> the number of iterations left.
\<close>

fun fill_header :: "nat \<Rightarrow> nat \<Rightarrow> nat \<Rightarrow> nat option list \<Rightarrow> nat option list" where
  "fill_header hdr i 0 update = update"
| "fill_header hdr i (Suc n) update = fill_header hdr (Suc i) n (array_set update i (Some hdr))"

text \<open>
  One iteration of the loop that connects the new node \<open>a\<close> at level \<open>i\<close>:
  \<^verbatim>\<open>newNode.forward[i] = update[i]!.forward[i]; update[i]!.forward[i] = newNode\<close>.
  When \<^verbatim>\<open>update[i]\<close> is \<^verbatim>\<open>null\<close> the source throws a \<^verbatim>\<open>TypeError\<close>: no result.
\<close>

definition set_forward :: "SkipListNode list \<Rightarrow> nat \<Rightarrow> nat \<Rightarrow> nat option \<Rightarrow> SkipListNode list" where
  "set_forward h a i v = h[a := (h ! a)\<lparr>forward := array_set (forward (h ! a)) i v\<rparr>]"

definition connect :: "nat option list \<Rightarrow> nat \<Rightarrow> nat \<Rightarrow> SkipListNode list \<Rightarrow> SkipListNode list option" where
  "connect update a i h =
     (if i < length update then
        (case update ! i of
           None \<Rightarrow> None
         | Some u \<Rightarrow> Some (set_forward (set_forward h a i (fwd h u i)) u i (Some a)))
      else None)"

text \<open>The loop \<^verbatim>\<open>for (i = 0; i <= newLevel; i++)\<close>, with \<open>n\<close> the number of iterations left.\<close>

fun connect_levels ::
  "nat option list \<Rightarrow> nat \<Rightarrow> nat \<Rightarrow> nat \<Rightarrow> SkipListNode list \<Rightarrow> SkipListNode list option" where
  "connect_levels update a i 0 h = Some h"
| "connect_levels update a i (Suc n) h =
     (case connect update a i h of
        None \<Rightarrow> None
      | Some h' \<Rightarrow> connect_levels update a (Suc i) n h')"

text \<open>
  \<^verbatim>\<open>insertScore\<close>. The result is \<open>None\<close> when the call does not return normally (a loop
  that does not end, or a \<^verbatim>\<open>TypeError\<close>).
\<close>

definition insertScore :: "(nat \<Rightarrow> real) \<Rightarrow> IScoreDetails \<Rightarrow> SkipList \<Rightarrow> SkipList option" where
  "insertScore rnd scoreDetails sl =
     (case search_levels (nodes sl) scoreDetails (level sl) (header sl)
             (replicate (maxLevel sl + 1) None) of
        None \<Rightarrow> None
      | Some (current, update) \<Rightarrow>
          (let next = fwd (nodes sl) current 0 in
           if (case next of None \<Rightarrow> False
               | Some n \<Rightarrow> SkipListNode.user_id (nodes sl ! n) = IScoreDetails.user_id scoreDetails)
           then Some (sl\<lparr>nodes := (nodes sl)[the next :=
                          (nodes sl ! the next)\<lparr>SkipListNode.score := IScoreDetails.score scoreDetails\<rparr>]\<rparr>)
           else
             (let newLevel = randomLevel rnd sl;
                  update' = (if newLevel > level sl
                             then fill_header (header sl) (level sl + 1) (newLevel - level sl) update
                             else update);
                  level' = (if newLevel > level sl then newLevel else level sl);
                  newNode = length (nodes sl);
                  h = nodes sl @ [SkipListNode_new (IScoreDetails.user_id scoreDetails)
                                    (IScoreDetails.game_id scoreDetails)
                                    (IScoreDetails.score scoreDetails) newLevel]
              in case connect_levels update' newNode 0 (newLevel + 1) h of
                   None \<Rightarrow> None
                 | Some h' \<Rightarrow> Some (sl\<lparr>nodes := h', level := level'\<rparr>))))"

text \<open>
  \<^verbatim>\<open>getTopK\<close>: the loop walks level 0 while \<^verbatim>\<open>result.length < k\<close>. The bound \<open>k\<close> is an
  integer of either sign.
\<close>

partial_function (option) getTopK_loop ::
  "SkipListNode list \<Rightarrow> int \<Rightarrow> nat option \<Rightarrow> int \<Rightarrow> ILeaderboard list \<Rightarrow> ILeaderboard list option" where
  "getTopK_loop h k current rnk result =
     (case current of
        None \<Rightarrow> Some result
      | Some c \<Rightarrow>
          if int (length result) < k
          then getTopK_loop h k (fwd h c 0) (rnk + 1)
                 (result @ [\<lparr>ILeaderboard.user_id = SkipListNode.user_id (h ! c),
                             score = SkipListNode.score (h ! c),
                             rank = rnk,
                             game_id = SkipListNode.game_id (h ! c)\<rparr>])
          else Some result)"

declare getTopK_loop.simps [code]

definition getTopK :: "SkipList \<Rightarrow> int \<Rightarrow> ILeaderboard list option" where
  "getTopK sl k = getTopK_loop (nodes sl) k (fwd (nodes sl) (header sl) 0) 1 []"

text \<open>
  \<^verbatim>\<open>getRank\<close> and \<^verbatim>\<open>getScore\<close>: a walk of level 0 to the first node of the user. (The
  engine of \<^verbatim>\<open>dummy.ts\<close> answers \<^verbatim>\<open>getUserScore\<close> from a map of the last score written for
  each user instead.)
\<close>

partial_function (option) getRank_loop ::
  "SkipListNode list \<Rightarrow> string \<Rightarrow> nat option \<Rightarrow> int \<Rightarrow> int option" where
  "getRank_loop h userId current rnk =
     (case current of
        None \<Rightarrow> Some (- 1)
      | Some c \<Rightarrow>
          if SkipListNode.user_id (h ! c) = userId then Some rnk
          else getRank_loop h userId (fwd h c 0) (rnk + 1))"

declare getRank_loop.simps [code]

definition getRank :: "SkipList \<Rightarrow> string \<Rightarrow> int option" where
  "getRank sl userId = getRank_loop (nodes sl) userId (fwd (nodes sl) (header sl) 0) 1"

partial_function (option) getScore_loop ::
  "SkipListNode list \<Rightarrow> string \<Rightarrow> nat option \<Rightarrow> number option" where
  "getScore_loop h userId current =
     (case current of
        None \<Rightarrow> Some (Num (- 1))
      | Some c \<Rightarrow>
          if SkipListNode.user_id (h ! c) = userId then Some (SkipListNode.score (h ! c))
          else getScore_loop h userId (fwd h c 0))"

declare getScore_loop.simps [code]

definition getScore :: "SkipList \<Rightarrow> string \<Rightarrow> number option" where
  "getScore sl userId = getScore_loop (nodes sl) userId (fwd (nodes sl) (header sl) 0)"

section \<open>The write-ahead log\<close>

text \<open>
  The file system is a map from paths to contents. A promise of \<^verbatim>\<open>fs/promises\<close> is
  fulfilled or rejected with an error; whether an operation of the file system fails is
  decided by the environment, so each operation takes the fault it meets (\<open>None\<close> for
  none) as an argument.
\<close>

datatype error = IOError string

type_synonym files = "string \<rightharpoonup> string"

definition appendFile :: "error option \<Rightarrow> string \<Rightarrow> string \<Rightarrow> files \<Rightarrow> error + files" where
  "appendFile fault path data fs =
     (case fault of
        Some err \<Rightarrow> Inl err
      | None \<Rightarrow> Inr (fs(path \<mapsto> (case fs path of None \<Rightarrow> data | Some c \<Rightarrow> c @ data))))"

definition readFile :: "error option \<Rightarrow> string \<Rightarrow> files \<Rightarrow> error + string" where
  "readFile fault path fs =
     (case fault of
        Some err \<Rightarrow> Inl err
      | None \<Rightarrow> (case fs path of None \<Rightarrow> Inl (IOError ''ENOENT'') | Some c \<Rightarrow> Inr c))"

text \<open>
  The state of a \<^verbatim>\<open>WriteAheadLog\<close>. \<^verbatim>\<open>writeQueue\<close> is the promise at the tail of the chain
  of appends, once settled: \<open>None\<close> when fulfilled, \<open>Some err\<close> when rejected with
  \<open>err\<close>. Calls are modelled one after the other; the chain runs the appends of one log in
  the order of the calls, so this is also the order in which concurrent calls take effect.
\<close>

record WriteAheadLog =
  writeQueue :: "error option"
  walPath :: string

text \<open>
  The constructor. The path is kept relative to the working directory of the process.
  \<^verbatim>\<open>ensureDirectory\<close> only creates the directory; its effect is whether later appends fail.
\<close>

definition WriteAheadLog_new :: "string \<Rightarrow> WriteAheadLog" where
  "WriteAheadLog_new gid = \<lparr>writeQueue = None, walPath = ''data/'' @ gid @ ''.wal''\<rparr>"

text \<open>
  Conversion of a number to a string, as a template literal does it: an integer of
  magnitude below \<open>2 ^ 53\<close> is written in decimal digits, with a sign when negative. From
  \<open>10 ^ 21\<close> on the runtime writes exponent notation (\<^verbatim>\<open>1e+21\<close>), and between the two it
  writes the shortest digits that read back as the same double; \<open>Number_toString\<close> does
  not follow it there, and the properties of the log are stated for scores below
  \<open>2 ^ 53\<close> only (\<open>safe_score\<close>).
\<close>

definition digit_char :: "nat \<Rightarrow> char" where
  "digit_char d = char_of (48 + d)"

fun digits :: "nat \<Rightarrow> string" where
  "digits n = (if n < 10 then [digit_char n] else digits (n div 10) @ [digit_char (n mod 10)])"

declare digits.simps [simp del]

fun Number_toString :: "number \<Rightarrow> string" where
  "Number_toString (Num n) = (if n < 0 then CHR ''-'' # digits (nat (- n)) else digits (nat n))"
| "Number_toString NegInfinity = ''-Infinity''"
| "Number_toString NaN = ''NaN''"

text \<open>
  Conversion of a \<^verbatim>\<open>Date\<close> to a string. The text for a valid date depends on the time
  zone of the host; \<open>tz\<close> is that rendering of a time value.
\<close>

fun Date_toString :: "(int \<Rightarrow> string) \<Rightarrow> Date \<Rightarrow> string" where
  "Date_toString tz (Date None) = ''Invalid Date''"
| "Date_toString tz (Date (Some t)) = tz t"

definition String_of :: "string option \<Rightarrow> string" where
  "String_of v = (case v of None \<Rightarrow> ''undefined'' | Some s \<Rightarrow> s)"

text \<open>
  The line that \<^verbatim>\<open>append\<close> builds. (In \<^verbatim>\<open>dummy.ts\<close> the line is the user id, the score and
  a time in milliseconds, separated by commas.)
\<close>

definition logLine :: "(int \<Rightarrow> string) \<Rightarrow> IScoreDetails \<Rightarrow> string" where
  "logLine tz entry =
     IScoreDetails.user_id entry @ '', '' @ String_of (IScoreDetails.game_id entry) @ '', '' @
     Number_toString (IScoreDetails.score entry) @ '', '' @
     Date_toString tz (ctime entry) @ [CHR 0x0A]"

text \<open>
  \<^verbatim>\<open>append\<close>. \<^verbatim>\<open>then\<close> on a rejected promise does not run its callback and yields a
  promise rejected with the same error; on a fulfilled promise it runs the callback, and
  the new promise is settled as the callback's \<^verbatim>\<open>appendFile\<close> is. The first component of
  the result is the promise returned to the caller, settled.
\<close>

definition WriteAheadLog_append ::
  "(int \<Rightarrow> string) \<Rightarrow> error option \<Rightarrow> IScoreDetails \<Rightarrow> WriteAheadLog \<times> files \<Rightarrow>
   (error + unit) \<times> WriteAheadLog \<times> files" where
  "WriteAheadLog_append tz fault entry s =
     (case s of (w, fs) \<Rightarrow>
        (case writeQueue w of
           Some err \<Rightarrow> (Inl err, w, fs)
         | None \<Rightarrow>
             (case appendFile fault (walPath w) (logLine tz entry) fs of
                Inl err \<Rightarrow> (Inl err, w\<lparr>writeQueue := Some err\<rparr>, fs)
              | Inr fs' \<Rightarrow> (Inr (), w, fs'))))"

text \<open>
  \<^verbatim>\<open>String.prototype.trim\<close> and \<^verbatim>\<open>split\<close> on a one-character separator. White space, among
  8-bit code units: tab, line feed, vertical tab, form feed, carriage return, space and
  no-break space.
\<close>

definition is_space :: "char \<Rightarrow> bool" where
  "is_space c = (c \<in> set [CHR 0x09, CHR 0x0A, CHR 0x0B, CHR 0x0C, CHR 0x0D, CHR 0x20, CHR 0xA0])"

definition trim :: "string \<Rightarrow> string" where
  "trim s = rev (dropWhile is_space (rev (dropWhile is_space s)))"

fun split :: "char \<Rightarrow> string \<Rightarrow> string list" where
  "split sep [] = [[]]"
| "split sep (c # cs) =
     (let r = split sep cs in if c = sep then [] # r else (c # hd r) # tl r)"

text \<open>
  \<^verbatim>\<open>parseInt\<close> with no radix: skip white space, read a sign, read the prefix \<^verbatim>\<open>0x\<close> or
  \<^verbatim>\<open>0X\<close> (then the radix is 16, else 10), and take the longest run of digits; \<^verbatim>\<open>NaN\<close> when
  there is none. \<^verbatim>\<open>undefined\<close> is converted to the string \<^verbatim>\<open>undefined\<close> first. The value of
  the digits is exact here; the runtime rounds a value of \<open>2 ^ 53\<close> or more to the nearest
  double, which \<open>parseInt\<close> does not follow.
\<close>

definition digit_val :: "char \<Rightarrow> nat option" where
  "digit_val c =
     (let n = of_char c :: nat in
      if 48 \<le> n \<and> n \<le> 57 then Some (n - 48)
      else if 97 \<le> n \<and> n \<le> 102 then Some (n - 87)
      else if 65 \<le> n \<and> n \<le> 70 then Some (n - 55)
      else None)"

definition is_digit :: "nat \<Rightarrow> char \<Rightarrow> bool" where
  "is_digit radix c = (case digit_val c of None \<Rightarrow> False | Some d \<Rightarrow> d < radix)"

definition digits_value :: "nat \<Rightarrow> string \<Rightarrow> nat" where
  "digits_value radix z = foldl (\<lambda>acc c. acc * radix + the (digit_val c)) 0 z"

definition parse_digits :: "nat \<Rightarrow> string \<Rightarrow> int option" where
  "parse_digits radix s =
     (let z = takeWhile (is_digit radix) s in
      if z = [] then None else Some (int (digits_value radix z)))"

definition parse_unsigned :: "string \<Rightarrow> int option" where
  "parse_unsigned s =
     (if take 2 s = ''0x'' \<or> take 2 s = ''0X'' then parse_digits 16 (drop 2 s)
      else parse_digits 10 s)"

definition parseInt :: "string option \<Rightarrow> number" where
  "parseInt v =
     (let s = dropWhile is_space (String_of v);
          neg = (take 1 s = ''-'');
          s' = (if take 1 s = ''-'' \<or> take 1 s = ''+'' then drop 1 s else s)
      in case parse_unsigned s' of
           None \<Rightarrow> NaN
         | Some m \<Rightarrow> Num (if neg then - m else m))"

text \<open>\<^verbatim>\<open>new Date(n)\<close>: a number out of the range of time values gives an invalid date.\<close>

fun Date_new :: "number \<Rightarrow> Date" where
  "Date_new (Num n) = Date (if \<bar>n\<bar> \<le> 8640000000000000 then Some n else None)"
| "Date_new _ = Date None"

text \<open>
  \<^verbatim>\<open>WriteAheadLog.recover\<close>. The destructuring
  \<^verbatim>\<open>[user_id, game_id, score, ctime] = line.split(",")\<close> gives \<^verbatim>\<open>undefined\<close> for a field
  that is missing; \<^verbatim>\<open>split\<close> returns at least one field.
\<close>

definition field :: "string list \<Rightarrow> nat \<Rightarrow> string option" where
  "field fs i = (if i < length fs then Some (fs ! i) else None)"

definition parse_line :: "string \<Rightarrow> IScoreDetails" where
  "parse_line line =
     (let fs = split CHR '','' line in
      \<lparr>IScoreDetails.user_id = hd fs,
       game_id = field fs 1,
       score = parseInt (field fs 2),
       ctime = Date_new (parseInt (field fs 3))\<rparr>)"

definition WriteAheadLog_recover :: "error option \<Rightarrow> WriteAheadLog \<Rightarrow> files \<Rightarrow> IScoreDetails list" where
  "WriteAheadLog_recover fault w fs =
     (case readFile fault (walPath w) fs of
        Inl err \<Rightarrow> []
      | Inr scoreContent \<Rightarrow>
          concat (map (\<lambda>line. if trim line \<noteq> [] then [parse_line line] else [])
                      (split (CHR 0x0A) (trim scoreContent))))"

section \<open>The engine\<close>

record LeaderboardEngine =
  gameId :: string
  skipList :: SkipList
  wal :: WriteAheadLog

text \<open>
  The private constructor: it builds an empty skip list and the log, and nothing else.
  (The constructor of \<^verbatim>\<open>dummy.ts\<close> also calls \<^verbatim>\<open>this.recover()\<close>.)
\<close>

definition LeaderboardEngine_new :: "string \<Rightarrow> LeaderboardEngine" where
  "LeaderboardEngine_new gid =
     \<lparr>gameId = gid, skipList = SkipList_new, wal = WriteAheadLog_new gid\<rparr>"

text \<open>
  \<^verbatim>\<open>getInstance\<close> over the static map \<^verbatim>\<open>Instances\<close>, which lives in the memory of the
  process: a new process starts with the empty map, and the files stay.
\<close>

definition getInstance ::
  "string \<Rightarrow> (string \<rightharpoonup> LeaderboardEngine) \<Rightarrow> LeaderboardEngine \<times> (string \<rightharpoonup> LeaderboardEngine)" where
  "getInstance gid Instances =
     (case Instances gid of
        None \<Rightarrow> (LeaderboardEngine_new gid, Instances(gid \<mapsto> LeaderboardEngine_new gid))
      | Some eng \<Rightarrow> (eng, Instances))"

text \<open>
  The private method \<^verbatim>\<open>recover\<close> of the engine: it inserts the entries of the log in
  order; \<open>rnds k\<close> gives the random draws of the insertion of entry \<open>k\<close>. No method of
  \<^verbatim>\<open>memory.ts\<close> calls it.
\<close>

fun insert_all ::
  "(nat \<Rightarrow> nat \<Rightarrow> real) \<Rightarrow> nat \<Rightarrow> IScoreDetails list \<Rightarrow> SkipList \<Rightarrow> SkipList option" where
  "insert_all rnds k [] sl = Some sl"
| "insert_all rnds k (entry # entries) sl =
     (case insertScore (rnds k) entry sl of
        None \<Rightarrow> None
      | Some sl' \<Rightarrow> insert_all rnds (Suc k) entries sl')"

definition LeaderboardEngine_recover ::
  "error option \<Rightarrow> (nat \<Rightarrow> nat \<Rightarrow> real) \<Rightarrow> LeaderboardEngine \<Rightarrow> files \<Rightarrow> LeaderboardEngine option" where
  "LeaderboardEngine_recover fault rnds eng fs =
     (case insert_all rnds 0 (WriteAheadLog_recover fault (wal eng) fs) (skipList eng) of
        None \<Rightarrow> None
      | Some sl' \<Rightarrow> Some (eng\<lparr>skipList := sl'\<rparr>))"

text \<open>
  \<^verbatim>\<open>updateScore\<close>: \<^verbatim>\<open>await this.wal.append(..)\<close> throws when the promise is rejected, and
  the insertion that follows is then not run. The result is the settled promise of the
  call with the engine and the files after it; \<open>None\<close> when \<^verbatim>\<open>insertScore\<close> does not return.
\<close>

definition updateScore ::
  "(int \<Rightarrow> string) \<Rightarrow> error option \<Rightarrow> (nat \<Rightarrow> real) \<Rightarrow> IScoreDetails \<Rightarrow>
   LeaderboardEngine \<times> files \<Rightarrow> ((error + unit) \<times> LeaderboardEngine \<times> files) option" where
  "updateScore tz fault rnd scoreDetails s =
     (case s of (eng, fs) \<Rightarrow>
        (case WriteAheadLog_append tz fault scoreDetails (wal eng, fs) of
           (Inl err, w', fs') \<Rightarrow> Some (Inl err, eng\<lparr>wal := w'\<rparr>, fs')
         | (Inr u, w', fs') \<Rightarrow>
             (case insertScore rnd scoreDetails (skipList eng) of
                None \<Rightarrow> None
              | Some sl' \<Rightarrow> Some (Inr (), eng\<lparr>skipList := sl', wal := w'\<rparr>, fs'))))"

definition engine_getTopK :: "LeaderboardEngine \<Rightarrow> int \<Rightarrow> ILeaderboard list option" where
  "engine_getTopK eng k = getTopK (skipList eng) k"

definition getUserRank :: "LeaderboardEngine \<Rightarrow> string \<Rightarrow> int option" where
  "getUserRank eng userId = getRank (skipList eng) userId"

definition getUserScore :: "LeaderboardEngine \<Rightarrow> string \<Rightarrow> number option" where
  "getUserScore eng userId = getScore (skipList eng) userId"

section \<open>The level-0 sequence of a skip list\<close>

text \<open>
  What the queries return is decided by the chain of level 0. The definitions of this
  section describe the store of a skip list by the sequence of addresses on that chain;
  they are used to state and prove the properties, and model no code.

  \<open>valid h i a\<close>: \<open>a\<close> is a node of the store with a pointer at level \<open>i\<close>.
  \<open>seg h i p as q\<close>: following the pointers of level \<open>i\<close> from \<open>p\<close> visits the nodes
  \<open>as\<close> in order and ends with the pointer \<open>q\<close>. \<open>tall h i a\<close>: the node \<open>a\<close> takes part
  in level \<open>i\<close>.
\<close>

definition valid :: "SkipListNode list \<Rightarrow> nat \<Rightarrow> nat \<Rightarrow> bool" where
  "valid h i a = (a < length h \<and> i < length (forward (h ! a)))"

primrec seg :: "SkipListNode list \<Rightarrow> nat \<Rightarrow> nat option \<Rightarrow> nat list \<Rightarrow> nat option \<Rightarrow> bool" where
  "seg h i p [] q = (p = q)"
| "seg h i p (a # as) q = (p = Some a \<and> valid h i a \<and> seg h i (fwd h a i) as q)"

definition tall :: "SkipListNode list \<Rightarrow> nat \<Rightarrow> nat \<Rightarrow> bool" where
  "tall h i a = (i < length (forward (h ! a)))"

text \<open>
  Scores that are integers, and the ranking order on nodes: higher score first, equal
  scores by smaller user id.
\<close>

definition is_int :: "number \<Rightarrow> bool" where
  "is_int x = (case x of Num n \<Rightarrow> True | _ \<Rightarrow> False)"

definition node_before :: "SkipListNode \<Rightarrow> SkipListNode \<Rightarrow> bool" where
  "node_before n m =
     (num_gt (SkipListNode.score n) (SkipListNode.score m) \<or>
      (num_eq (SkipListNode.score n) (SkipListNode.score m) \<and>
       SkipListNode.user_id n < SkipListNode.user_id m))"

text \<open>Two stores with the same nodes up to the contents of the forward arrays.\<close>

definition same_shape :: "SkipListNode list \<Rightarrow> SkipListNode list \<Rightarrow> bool" where
  "same_shape g g' =
     (length g' = length g \<and>
      (\<forall>a < length g.
         length (forward (g' ! a)) = length (forward (g ! a)) \<and>
         SkipListNode.user_id (g' ! a) = SkipListNode.user_id (g ! a) \<and>
         SkipListNode.score (g' ! a) = SkipListNode.score (g ! a) \<and>
         SkipListNode.game_id (g' ! a) = SkipListNode.game_id (g ! a)))"

text \<open>
  The invariant: \<open>L\<close> is the sequence of level 0 after the header. The header has a pointer
  at every level; the nodes are distinct, carry integer scores and are no taller than the
  current level; the chain of every level is the sequence of the nodes that are tall
  enough, in the order of \<open>L\<close>; and \<open>L\<close> is in strict ranking order.
\<close>

definition skiplist_inv :: "SkipList \<Rightarrow> nat list \<Rightarrow> bool" where
  "skiplist_inv sl L =
     (header sl < length (nodes sl) \<and>
      length (forward (nodes sl ! header sl)) = maxLevel sl + 1 \<and>
      level sl \<le> maxLevel sl \<and>
      distinct (header sl # L) \<and>
      (\<forall>a \<in> set L. a < length (nodes sl) \<and> tall (nodes sl) 0 a \<and>
                    \<not> tall (nodes sl) (level sl + 1) a \<and>
                    is_int (SkipListNode.score (nodes sl ! a))) \<and>
      (\<forall>i \<le> maxLevel sl.
          seg (nodes sl) i (Some (header sl)) (filter (tall (nodes sl) i) (header sl # L)) None) \<and>
      sorted_wrt (\<lambda>a b. node_before (nodes sl ! a) (nodes sl ! b)) L)"

text \<open>
  The contents of a sequence of nodes: user id, score and game id of each. \<open>upsert\<close> is
  what \<^verbatim>\<open>insertScore\<close> does to these contents: it looks at the first entry that does not
  come before the new one, overwrites its score when it belongs to the same user, and
  puts a new entry in front of it otherwise.
\<close>

type_synonym row = "string \<times> number \<times> string option"

definition node_view :: "SkipListNode \<Rightarrow> row" where
  "node_view n = (SkipListNode.user_id n, SkipListNode.score n, SkipListNode.game_id n)"

definition row_precedes :: "row \<Rightarrow> IScoreDetails \<Rightarrow> bool" where
  "row_precedes r e =
     (num_gt (fst (snd r)) (IScoreDetails.score e) \<or>
      (num_eq (fst (snd r)) (IScoreDetails.score e) \<and> fst r < IScoreDetails.user_id e))"

definition view_before :: "row \<Rightarrow> row \<Rightarrow> bool" where
  "view_before v v' =
     (num_gt (fst (snd v)) (fst (snd v')) \<or>
      (num_eq (fst (snd v)) (fst (snd v')) \<and> fst v < fst v'))"

definition upsert :: "IScoreDetails \<Rightarrow> row list \<Rightarrow> row list" where
  "upsert e V =
     (let pre = takeWhile (\<lambda>r. row_precedes r e) V;
          post = dropWhile (\<lambda>r. row_precedes r e) V;
          new = (IScoreDetails.user_id e, IScoreDetails.score e, IScoreDetails.game_id e)
      in case post of
           [] \<Rightarrow> pre @ [new]
         | r # rest \<Rightarrow>
             if fst r = IScoreDetails.user_id e
             then pre @ (fst r, IScoreDetails.score e, snd (snd r)) # rest
             else pre @ new # post)"

definition represents :: "SkipList \<Rightarrow> row list \<Rightarrow> bool" where
  "represents sl V = (\<exists>L. skiplist_inv sl L \<and> V = map (\<lambda>a. node_view (nodes sl ! a)) L)"

text \<open>The rows of a leaderboard, with ranks counted from \<open>r\<close>, and the ranking order on rows.\<close>

fun rank_rows :: "int \<Rightarrow> row list \<Rightarrow> ILeaderboard list" where
  "rank_rows r [] = []"
| "rank_rows r (v # vs) =
     \<lparr>ILeaderboard.user_id = fst v, score = fst (snd v), rank = r, game_id = snd (snd v)\<rparr> #
     rank_rows (r + 1) vs"

definition row_before :: "ILeaderboard \<Rightarrow> ILeaderboard \<Rightarrow> bool" where
  "row_before r r' =
     (num_gt (ILeaderboard.score r) (ILeaderboard.score r') \<or>
      (num_eq (ILeaderboard.score r) (ILeaderboard.score r') \<and>
       ILeaderboard.user_id r < ILeaderboard.user_id r'))"

definition ranking_order :: "ILeaderboard list \<Rightarrow> bool" where
  "ranking_order rows = sorted_wrt row_before rows"

text \<open>The two writes of the tie-break scenario, with any game id and time.\<close>

definition entry_b5 :: "string option \<Rightarrow> Date \<Rightarrow> IScoreDetails" where
  "entry_b5 gid t = \<lparr>IScoreDetails.user_id = ''b'', game_id = gid, score = Num 5, ctime = t\<rparr>"

definition entry_a5 :: "string option \<Rightarrow> Date \<Rightarrow> IScoreDetails" where
  "entry_a5 gid t = \<lparr>IScoreDetails.user_id = ''a'', game_id = gid, score = Num 5, ctime = t\<rparr>"

section \<open>Sequences of calls and example inputs\<close>

text \<open>A sequence of \<^verbatim>\<open>append\<close> calls on one log, each with the fault it meets.\<close>

fun append_all ::
  "(int \<Rightarrow> string) \<Rightarrow> (error option \<times> IScoreDetails) list \<Rightarrow> WriteAheadLog \<times> files \<Rightarrow>
   (error + unit) list \<times> WriteAheadLog \<times> files" where
  "append_all tz [] s = ([], s)"
| "append_all tz ((fault, entry) # calls) s =
     (case WriteAheadLog_append tz fault entry s of
        (r, s') \<Rightarrow> (case append_all tz calls s' of (rs, s'') \<Rightarrow> (r # rs, s'')))"

text \<open>
  Example inputs. \<open>utc\<close> renders the time values of the first second after the epoch
  as a host in the UTC time zone does; \<open>no_promotion\<close> is a run of \<^verbatim>\<open>Math.random()\<close> that
  never goes below the probability, so every new node gets level 0.
\<close>

definition utc :: "int \<Rightarrow> string" where
  "utc t = ''Thu Jan 01 1970 00:00:00 GMT+0000 (Coordinated Universal Time)''"

definition no_promotion :: "nat \<Rightarrow> real" where
  "no_promotion n = 1"

definition entry_u1_10 :: IScoreDetails where
  "entry_u1_10 =
     \<lparr>IScoreDetails.user_id = ''u1'', game_id = Some ''g1'', score = Num 10, ctime = Date (Some 0)\<rparr>"

definition entry_u1_5 :: IScoreDetails where
  "entry_u1_5 =
     \<lparr>IScoreDetails.user_id = ''u1'', game_id = Some ''g1'', score = Num 5, ctime = Date (Some 0)\<rparr>"

text \<open>
  Three writes, the second with the score \<^verbatim>\<open>NaN\<close>; the handler checks only that a score is
  neither \<^verbatim>\<open>null\<close> nor \<^verbatim>\<open>undefined\<close>.
\<close>

definition entry_u2_nan :: IScoreDetails where
  "entry_u2_nan =
     \<lparr>IScoreDetails.user_id = ''u2'', game_id = Some ''g1'', score = NaN, ctime = Date (Some 0)\<rparr>"

definition entry_u3_20 :: IScoreDetails where
  "entry_u3_20 =
     \<lparr>IScoreDetails.user_id = ''u3'', game_id = Some ''g1'', score = Num 20, ctime = Date (Some 0)\<rparr>"

text \<open>The skip list after \<open>entry_u1_10\<close> was inserted into an empty one.\<close>

definition list_u1 :: SkipList where
  "list_u1 =
     \<lparr>nodes = [\<lparr>SkipListNode.user_id = [], game_id = Some [], score = NegInfinity,
                 forward = Some 1 # replicate 20 None\<rparr>,
               \<lparr>SkipListNode.user_id = ''u1'', game_id = Some ''g1'', score = Num 10,
                 forward = [None]\<rparr>],
      header = 0, level = 0, maxLevel = 20, probability = 1 / 2\<rparr>"

text \<open>
  Two completed \<^verbatim>\<open>updateScore\<close> calls for the same user on a new engine, the second
  with the lower score; no fault of the file system.
\<close>

definition two_writes :: "((error + unit) \<times> LeaderboardEngine \<times> files) option" where
  "two_writes =
     (case updateScore utc None no_promotion entry_u1_10 (LeaderboardEngine_new ''g1'', Map.empty) of
        None \<Rightarrow> None
      | Some (r, s) \<Rightarrow> updateScore utc None no_promotion entry_u1_5 s)"

text \<open>
  One acknowledged write in a process that starts with no engine and no file, and the
  engine that a new process gets for the same game afterwards.
\<close>

definition before_crash :: "((error + unit) \<times> LeaderboardEngine \<times> files) option" where
  "before_crash =
     updateScore utc None no_promotion entry_u1_10 (fst (getInstance ''g1'' Map.empty), Map.empty)"

definition after_restart :: LeaderboardEngine where
  "after_restart = fst (getInstance ''g1'' Map.empty)"

section \<open>Records of the log\<close>

text \<open>
  The record of an entry in the words of the specification: user id, score and the time
  in milliseconds, separated by tabs, and a line feed.
\<close>

definition spec_record :: "IScoreDetails \<Rightarrow> string" where
  "spec_record e =
     IScoreDetails.user_id e @ [CHR 0x09] @ Number_toString (IScoreDetails.score e) @ [CHR 0x09] @
     (case time_value (ctime e) of None \<Rightarrow> ''NaN'' | Some t \<Rightarrow> Number_toString (Num t)) @
     [CHR 0x0A]"

text \<open>\<open>decimal_of s n\<close>: the text \<open>s\<close> is the integer \<open>n\<close> in base 10, with a sign when negative.\<close>

definition decimal_of :: "string \<Rightarrow> int \<Rightarrow> bool" where
  "decimal_of s n =
     (\<exists>ds. s = (if n < 0 then ''-'' else []) @ ds \<and> ds \<noteq> [] \<and>
           list_all (is_digit 10) ds \<and> int (digits_value 10 ds) = \<bar>n\<bar>)"

text \<open>
  The scores that are written and read exactly: the integers of magnitude below
  \<open>2 ^ 53\<close>.
\<close>

definition safe_score :: "number \<Rightarrow> bool" where
  "safe_score x = (case x of Num n \<Rightarrow> \<bar>n\<bar> < 9007199254740992 | _ \<Rightarrow> False)"

text \<open>
  The entries that the comma-separated layout can carry: no comma and no line feed in
  the user id and the game id, no white space at the start of the user id, an integer
  score of magnitude below \<open>2 ^ 53\<close>, and no line feed in the text of the date.
  \<open>line_core\<close> is the part of a record up to the comma after the score.
\<close>

definition wal_safe :: "(int \<Rightarrow> string) \<Rightarrow> IScoreDetails \<Rightarrow> bool" where
  "wal_safe tz e =
     (CHR '','' \<notin> set (IScoreDetails.user_id e) \<and>
      CHR 0x0A \<notin> set (IScoreDetails.user_id e) \<and>
      \<not> (IScoreDetails.user_id e \<noteq> [] \<and> is_space (hd (IScoreDetails.user_id e))) \<and>
      CHR '','' \<notin> set (String_of (IScoreDetails.game_id e)) \<and>
      CHR 0x0A \<notin> set (String_of (IScoreDetails.game_id e)) \<and>
      safe_score (IScoreDetails.score e) \<and>
      CHR 0x0A \<notin> set (Date_toString tz (ctime e)))"

definition line_core :: "IScoreDetails \<Rightarrow> string" where
  "line_core e =
     IScoreDetails.user_id e @ '', '' @ String_of (IScoreDetails.game_id e) @ '', '' @
     Number_toString (IScoreDetails.score e) @ '',''"

text \<open>An entry whose user id holds a comma.\<close>

definition entry_comma :: IScoreDetails where
  "entry_comma =
     \<lparr>IScoreDetails.user_id = ''a,b'', game_id = Some ''g1'', score = Num 10, ctime = Date (Some 0)\<rparr>"

section \<open>Properties\<close>

subsection \<open>Bounds of \<^verbatim>\<open>getTopK\<close>\<close>

lemma insert_u1: "insertScore no_promotion entry_u1_10 SkipList_new = Some list_u1"
  by code_simp

text \<open>
  C9 (as amended): for every skip list, \<^verbatim>\<open>getTopK(0)\<close> returns the empty list, and so does
  \<^verbatim>\<open>getTopK(k)\<close> for every negative \<open>k\<close>: no bound is rejected.
\<close>

theorem C9_getTopK_nonpositive: "k \<le> 0 \<Longrightarrow> getTopK sl k = Some []"
  unfolding getTopK_def
  by (subst getTopK_loop.simps) (simp split: option.split)

theorem C9_getTopK_nonpositive_witness:
  "(0::int) \<le> 0 \<and> getTopK list_u1 0 = Some []"
  using C9_getTopK_nonpositive [of 0 list_u1] by simp

text \<open>
  C9 as stated fails: on a list that holds one user, \<^verbatim>\<open>getTopK(-1)\<close> returns a result, the
  empty list, while \<^verbatim>\<open>getTopK(1)\<close> returns that user.
\<close>

theorem C9_negative_k_counterexample:
  "getTopK list_u1 (- 1) = Some [] \<and>
   getTopK list_u1 1 =
     Some [\<lparr>ILeaderboard.user_id = ''u1'', score = Num 10, rank = 1, game_id = Some ''g1''\<rparr>]"
  by code_simp

subsection \<open>Failure of the log\<close>

lemma append_rejected:
  "writeQueue w = Some err \<Longrightarrow> WriteAheadLog_append tz fault entry (w, fs) = (Inl err, w, fs)"
  by (simp add: WriteAheadLog_append_def)

lemma append_failure_state:
  assumes "WriteAheadLog_append tz fault entry (w, fs) = (Inl err, w', fs')"
  shows "writeQueue w' = Some err \<and> fs' = fs"
  using assms
  by (auto simp: WriteAheadLog_append_def split: option.splits sum.splits)

lemma append_all_rejected:
  "writeQueue w = Some err \<Longrightarrow>
   append_all tz calls (w, fs) = (replicate (length calls) (Inl err), w, fs)"
proof (induction calls)
  case Nil
  show ?case by simp
next
  case (Cons call calls)
  obtain fault entry where call: "call = (fault, entry)" by (cases call)
  from Cons show ?case
    by (simp add: call append_rejected)
qed

text \<open>
  C8: when the append of an \<^verbatim>\<open>updateScore\<close> call fails, the call returns that failure and
  the skip list of the engine and the files are as before the call.
\<close>

theorem C8_failed_append_leaves_index:
  assumes "fst (WriteAheadLog_append tz fault scoreDetails (wal eng, fs)) = Inl err"
  shows "\<exists>eng'. updateScore tz fault rnd scoreDetails (eng, fs) = Some (Inl err, eng', fs) \<and>
           skipList eng' = skipList eng"
proof -
  obtain r w' fs' where a: "WriteAheadLog_append tz fault scoreDetails (wal eng, fs) = (r, w', fs')"
    by (cases "WriteAheadLog_append tz fault scoreDetails (wal eng, fs)")
  with assms have r: "r = Inl err" by simp
  with a have "fs' = fs" using append_failure_state by blast
  with a r show ?thesis by (simp add: updateScore_def)
qed

theorem C8_failed_append_leaves_index_witness:
  "fst (WriteAheadLog_append utc (Some (IOError ''ENOSPC'')) entry_u1_5
          (wal (LeaderboardEngine_new ''g1''\<lparr>skipList := list_u1\<rparr>), Map.empty))
     = Inl (IOError ''ENOSPC'') \<and>
   (\<exists>eng'. updateScore utc (Some (IOError ''ENOSPC'')) no_promotion entry_u1_5
              (LeaderboardEngine_new ''g1''\<lparr>skipList := list_u1\<rparr>, Map.empty)
            = Some (Inl (IOError ''ENOSPC''), eng', Map.empty) \<and>
          skipList eng' = list_u1)"
proof -
  have h: "fst (WriteAheadLog_append utc (Some (IOError ''ENOSPC'')) entry_u1_5
                  (wal (LeaderboardEngine_new ''g1''\<lparr>skipList := list_u1\<rparr>), Map.empty))
           = Inl (IOError ''ENOSPC'')"
    by (simp add: WriteAheadLog_append_def appendFile_def LeaderboardEngine_new_def WriteAheadLog_new_def)
  from C8_failed_append_leaves_index [OF h, of no_promotion] h show ?thesis by simp
qed

text \<open>
  C10: once an append on a log has failed, every later append on that log returns the
  same failure, whatever the file system would do, and the log and the files stay as the
  failed append left them.
\<close>

theorem C10_rejected_queue_stays_rejected:
  assumes "WriteAheadLog_append tz fault entry (w, fs) = (Inl err, w', fs')"
  shows "append_all tz calls (w', fs') = (replicate (length calls) (Inl err), w', fs') \<and> fs' = fs"
  using append_failure_state [OF assms] append_all_rejected by blast

theorem C10_rejected_queue_stays_rejected_witness:
  "WriteAheadLog_append utc (Some (IOError ''EIO'')) entry_u1_10 (WriteAheadLog_new ''g1'', Map.empty)
     = (Inl (IOError ''EIO''), WriteAheadLog_new ''g1''\<lparr>writeQueue := Some (IOError ''EIO'')\<rparr>, Map.empty) \<and>
   append_all utc [(None, entry_u1_5), (None, entry_u1_10)]
       (WriteAheadLog_new ''g1''\<lparr>writeQueue := Some (IOError ''EIO'')\<rparr>, Map.empty)
     = ([Inl (IOError ''EIO''), Inl (IOError ''EIO'')],
        WriteAheadLog_new ''g1''\<lparr>writeQueue := Some (IOError ''EIO'')\<rparr>, Map.empty)"
proof -
  have h: "WriteAheadLog_append utc (Some (IOError ''EIO'')) entry_u1_10 (WriteAheadLog_new ''g1'', Map.empty)
     = (Inl (IOError ''EIO''), WriteAheadLog_new ''g1''\<lparr>writeQueue := Some (IOError ''EIO'')\<rparr>, Map.empty)"
    by (simp add: WriteAheadLog_append_def appendFile_def WriteAheadLog_new_def)
  from C10_rejected_queue_stays_rejected [OF h, of "[(None, entry_u1_5), (None, entry_u1_10)]"] h
  show ?thesis by (simp add: numeral_2_eq_2)
qed

subsection \<open>A second write for a user\<close>

text \<open>
  C1 at the failing input: after \<^verbatim>\<open>updateScore\<close> of \<open>(u1, 10)\<close> and then \<open>(u1, 5)\<close>, level 0
  holds two nodes for \<open>u1\<close>.
\<close>

theorem C1_two_nodes_for_one_user:
  "map_option (\<lambda>(r, eng, fs). (r, engine_getTopK eng 10)) two_writes =
     Some (Inr (),
           Some [\<lparr>ILeaderboard.user_id = ''u1'', score = Num 10, rank = 1, game_id = Some ''g1''\<rparr>,
                 \<lparr>ILeaderboard.user_id = ''u1'', score = Num 5, rank = 2, game_id = Some ''g1''\<rparr>])"
  by code_simp

text \<open>
  C2 at the failing input: after the same two writes, \<^verbatim>\<open>getUserScore\<close> of \<open>u1\<close> returns 10,
  the score of the first write.
\<close>

theorem C2_score_of_first_write:
  "map_option (\<lambda>(r, eng, fs). (r, getUserScore eng ''u1'')) two_writes =
     Some (Inr (), Some (Num 10))"
  by code_simp

text \<open>
  C7 at the failing input: after the same two writes there is one user; \<^verbatim>\<open>getTopK(1)\<close>
  returns the row of rank 1 and \<^verbatim>\<open>getTopK(2)\<close> a second row for \<open>u1\<close> of rank 2, while
  \<^verbatim>\<open>getUserRank\<close> of \<open>u1\<close> returns 1.
\<close>

theorem C7_rank_of_second_row:
  "map_option (\<lambda>(r, eng, fs). (map ILeaderboard.user_id (the (engine_getTopK eng 2)),
                               map rank (the (engine_getTopK eng 2)),
                               getUserRank eng ''u1'')) two_writes =
     Some ([''u1'', ''u1''], [1, 2], Some 1)"
  by code_simp

subsection \<open>Restart\<close>

text \<open>
  C3 at the failing input: after one acknowledged write the log holds the record and the
  engine answers with the score; the engine of a new process for the same game, built by
  \<^verbatim>\<open>getInstance\<close> on the empty map, answers as an empty one.
\<close>

theorem C3_restart_without_replay:
  "map_option (\<lambda>(r, eng, fs). (r, fs ''data/g1.wal'', engine_getTopK eng 1,
                               getUserScore eng ''u1'', getUserRank eng ''u1'')) before_crash =
     Some (Inr (),
           Some ''u1, g1, 10, Thu Jan 01 1970 00:00:00 GMT+0000 (Coordinated Universal Time)\<newline>'',
           Some [\<lparr>ILeaderboard.user_id = ''u1'', score = Num 10, rank = 1, game_id = Some ''g1''\<rparr>],
           Some (Num 10), Some 1) \<and>
   engine_getTopK after_restart 1 = Some [] \<and>
   getUserScore after_restart ''u1'' = Some (Num (- 1)) \<and>
   getUserRank after_restart ''u1'' = Some (- 1)"
  by code_simp

subsection \<open>Order of the leaderboard\<close>

lemma seg_append: "seg h i p (xs @ ys) q = (\<exists>r. seg h i p xs r \<and> seg h i r ys q)"
  by (induction xs arbitrary: p) auto

lemma seg_frame:
  assumes "seg h i p as q"
    and "\<And>a. a \<in> set as \<Longrightarrow> valid h' i a \<and> fwd h' a i = fwd h a i"
  shows "seg h' i p as q"
  using assms by (induction as arbitrary: p) auto

lemma seg_last_fwd:
  "seg h i p (xs @ [u]) q \<Longrightarrow> fwd h u i = q"
  by (auto simp: seg_append)

lemma seg_snoc: "seg h i p (xs @ [u]) q = (seg h i p xs (Some u) \<and> valid h i u \<and> fwd h u i = q)"
  by (auto simp: seg_append)

text \<open>The inner loop of the search on a chain that ends.\<close>

lemma search_level_chain:
  assumes "seg h i (fwd h cur i) as None"
  shows "search_level h e i cur = Some (last (cur # takeWhile (\<lambda>a. precedes (h ! a) e) as))"
  using assms
proof (induction as arbitrary: cur)
  case Nil
  then show ?case by (subst search_level.simps) simp
next
  case (Cons a as)
  from Cons.prems have f: "fwd h cur i = Some a" and r: "seg h i (fwd h a i) as None" by auto
  show ?case
  proof (cases "precedes (h ! a) e")
    case True
    with Cons.IH [OF r] f show ?thesis by (subst search_level.simps) simp
  next
    case False
    with f show ?thesis by (subst search_level.simps) simp
  qed
qed

lemma is_int_Num: "is_int x \<Longrightarrow> \<exists>n. x = Num n"
  by (cases x) (auto simp: is_int_def)

lemma before_precedes:
  assumes "node_before n m" "precedes m e"
    and "is_int (SkipListNode.score n)" "is_int (SkipListNode.score m)" "is_int (IScoreDetails.score e)"
  shows "precedes n e"
proof -
  obtain a b c where "SkipListNode.score n = Num a" "SkipListNode.score m = Num b"
    "IScoreDetails.score e = Num c"
    using assms(3-5) by (blast dest: is_int_Num)
  with assms(1,2) show ?thesis
    by (auto simp: node_before_def precedes_def)
qed

lemma takeWhile_sorted_split:
  assumes "sorted_wrt R xs"
    and "\<And>a b. a \<in> set xs \<Longrightarrow> b \<in> set xs \<Longrightarrow> R a b \<Longrightarrow> P b \<Longrightarrow> P a"
  shows "\<forall>b \<in> set (dropWhile P xs). \<not> P b"
  using assms
proof (induction xs)
  case Nil
  show ?case by simp
next
  case (Cons x xs)
  show ?case
  proof (cases "P x")
    case True
    have "\<forall>b \<in> set (dropWhile P xs). \<not> P b"
      using Cons.prems by (intro Cons.IH) auto
    with True show ?thesis by simp
  next
    case False
    have "\<not> P b" if "b \<in> set xs" for b
    proof
      assume "P b"
      moreover from Cons.prems(1) that have "R x b" by simp
      ultimately have "P x" using Cons.prems(2) [of x b] that by simp
      with False show False by simp
    qed
    with False show ?thesis by simp
  qed
qed

lemma last_filter_mid:
  "Q c \<Longrightarrow> last (filter Q (M @ c # N)) = last (c # filter Q N)"
  by simp

lemma takeWhile_all_none:
  assumes "\<forall>a \<in> set xs. P a" "\<forall>b \<in> set ys. \<not> P b"
  shows "takeWhile P (xs @ ys) = xs"
proof -
  from assms(2) have "takeWhile P ys = []" by (cases ys) auto
  with assms(1) show ?thesis by (simp add: takeWhile_append2)
qed

text \<open>The search at one level, started at any node of the prefix that is tall enough.\<close>

lemma search_level_prefix:
  assumes chain: "seg h i (Some H) (filter (tall h i) (H # L1 @ L2)) None"
    and p1: "\<forall>a \<in> set L1. precedes (h ! a) e"
    and p2: "\<forall>b \<in> set L2. \<not> precedes (h ! b) e"
    and cur: "cur \<in> set (H # L1)" "tall h i cur"
  shows "search_level h e i cur = Some (last (filter (tall h i) (H # L1)))"
proof -
  from cur(1) obtain M N where dec: "H # L1 = M @ cur # N"
    by (meson split_list)
  have N: "set N \<subseteq> set L1"
  proof (cases M)
    case Nil
    with dec show ?thesis by auto
  next
    case (Cons m M')
    with dec have "L1 = M' @ cur # N" by simp
    then show ?thesis by auto
  qed
  have "filter (tall h i) (H # L1 @ L2) = filter (tall h i) ((H # L1) @ L2)" by simp
  also have "\<dots> = (filter (tall h i) M @ [cur]) @ (filter (tall h i) N @ filter (tall h i) L2)"
    unfolding dec using cur(2) by simp
  finally have "seg h i (Some H) ((filter (tall h i) M @ [cur]) @ (filter (tall h i) N @ filter (tall h i) L2)) None"
    using chain by simp
  then have "seg h i (fwd h cur i) (filter (tall h i) N @ filter (tall h i) L2) None"
    unfolding seg_append [of h i _ "filter (tall h i) M @ [cur]"] seg_snoc by auto
  then have "search_level h e i cur =
      Some (last (cur # takeWhile (\<lambda>a. precedes (h ! a) e) (filter (tall h i) N @ filter (tall h i) L2)))"
    by (rule search_level_chain)
  moreover have "takeWhile (\<lambda>a. precedes (h ! a) e) (filter (tall h i) N @ filter (tall h i) L2)
      = filter (tall h i) N"
    using p1 p2 N by (intro takeWhile_all_none) auto
  moreover have "last (filter (tall h i) (H # L1)) = last (cur # filter (tall h i) N)"
    unfolding dec using cur(2) by (rule last_filter_mid)
  ultimately show ?thesis by simp
qed

lemma last_filter_in:
  assumes "Q H"
  shows "last (filter Q (H # L)) \<in> set (H # L) \<and> Q (last (filter Q (H # L)))"
proof -
  let ?xs = "H # L"
  from assms have "filter Q ?xs \<noteq> []" by simp
  then have "last (filter Q ?xs) \<in> set (filter Q ?xs)" by (rule last_in_set)
  then have "last (filter Q ?xs) \<in> {x \<in> set ?xs. Q x}" by (simp only: set_filter)
  then show ?thesis by blast
qed

lemma array_set_in_range:
  "i < length xs \<Longrightarrow> array_set xs i v = xs[i := v]"
  by (simp add: array_set_def)

text \<open>The outer loop: \<open>update\<close> holds the predecessor at every level up to \<open>i\<close>.\<close>

lemma search_levels_spec:
  assumes chains: "\<forall>j \<le> i. seg h j (Some H) (filter (tall h j) (H # L1 @ L2)) None"
    and p1: "\<forall>a \<in> set L1. precedes (h ! a) e"
    and p2: "\<forall>b \<in> set L2. \<not> precedes (h ! b) e"
    and H: "\<forall>j \<le> i. tall h j H"
    and cur: "cur \<in> set (H # L1)" "tall h i cur"
    and len: "i < length update"
  shows "\<exists>upd. search_levels h e i cur update = Some (last (filter (tall h 0) (H # L1)), upd) \<and>
           length upd = length update \<and>
           (\<forall>j \<le> i. upd ! j = Some (last (filter (tall h j) (H # L1)))) \<and>
           (\<forall>j. i < j \<longrightarrow> upd ! j = update ! j)"
  using assms
proof (induction i arbitrary: cur update)
  case 0
  have "search_level h e 0 cur = Some (last (filter (tall h 0) (H # L1)))"
    using "0.prems" by (intro search_level_prefix [where ?L2.0 = L2]) auto
  with "0.prems"(7) show ?case by (simp add: array_set_in_range)
next
  case (Suc i)
  let ?c = "last (filter (tall h (Suc i)) (H # L1))"
  let ?u = "array_set update (Suc i) (Some ?c)"
  have s: "search_level h e (Suc i) cur = Some ?c"
    using Suc.prems by (intro search_level_prefix [where ?L2.0 = L2]) auto
  from Suc.prems(4) have "tall h (Suc i) H" by simp
  then have c: "?c \<in> set (H # L1)" "tall h (Suc i) ?c"
    using last_filter_in [of "tall h (Suc i)" H L1] by auto
  from c(2) have c': "tall h i ?c" by (simp add: tall_def)
  have u: "?u = update[Suc i := Some ?c]" "length ?u = length update"
    using Suc.prems(7) by (simp_all add: array_set_in_range)
  have "\<exists>upd. search_levels h e i ?c ?u = Some (last (filter (tall h 0) (H # L1)), upd) \<and>
           length upd = length ?u \<and>
           (\<forall>j \<le> i. upd ! j = Some (last (filter (tall h j) (H # L1)))) \<and>
           (\<forall>j. i < j \<longrightarrow> upd ! j = ?u ! j)"
    using Suc.prems c(1) c' u(2) by (intro Suc.IH) auto
  then obtain upd where upd:
    "search_levels h e i ?c ?u = Some (last (filter (tall h 0) (H # L1)), upd)"
    "length upd = length ?u"
    "\<forall>j \<le> i. upd ! j = Some (last (filter (tall h j) (H # L1)))"
    "\<forall>j. i < j \<longrightarrow> upd ! j = ?u ! j"
    by blast
  have "upd ! j = Some (last (filter (tall h j) (H # L1)))" if "j \<le> Suc i" for j
  proof (cases "j = Suc i")
    case True
    with upd(4) u Suc.prems(7) show ?thesis by simp
  next
    case False
    with that upd(3) show ?thesis by simp
  qed
  moreover have "upd ! j = update ! j" if "Suc i < j" for j
    using upd(4) that u by simp
  ultimately show ?case using s upd(1,2) u(2) by simp
qed

lemma same_shape_refl: "same_shape g g"
  by (simp add: same_shape_def)

lemma same_shape_trans: "same_shape g g' \<Longrightarrow> same_shape g' g'' \<Longrightarrow> same_shape g g''"
  by (simp add: same_shape_def)

lemma same_shape_valid: "same_shape g g' \<Longrightarrow> valid g' i a = valid g i a"
  by (auto simp: same_shape_def valid_def)

lemma same_shape_tall: "same_shape g g' \<Longrightarrow> a < length g \<Longrightarrow> tall g' i a = tall g i a"
  by (simp add: same_shape_def tall_def)

lemma set_forward_shape:
  assumes "valid g j a"
  shows "same_shape g (set_forward g a j v)"
  using assms
  by (auto simp: same_shape_def set_forward_def valid_def array_set_in_range nth_list_update)

lemma set_forward_fwd:
  assumes "valid g j a"
  shows "fwd (set_forward g a j v) b i = (if b = a \<and> i = j then v else fwd g b i)"
  using assms
  by (auto simp: set_forward_def valid_def fwd_def array_set_in_range nth_list_update)

lemma seg_valid: "seg h i p as q \<Longrightarrow> a \<in> set as \<Longrightarrow> valid h i a"
  by (induction as arbitrary: p) auto

lemma seg_splice:
  assumes s: "seg g j p (X @ u # Y) None"
    and d: "distinct (X @ u # Y)" "n \<notin> set (X @ u # Y)"
    and n: "valid g j n"
  shows "seg (set_forward (set_forward g n j (fwd g u j)) u j (Some n)) j p (X @ u # n # Y) None"
proof -
  let ?g1 = "set_forward g n j (fwd g u j)"
  let ?g2 = "set_forward ?g1 u j (Some n)"
  from s have X: "seg g j p X (Some u)" and u: "valid g j u" and Y: "seg g j (fwd g u j) Y None"
    by (auto simp: seg_append)
  have sh1: "same_shape g ?g1" using n by (rule set_forward_shape)
  have u1: "valid ?g1 j u" using u sh1 by (simp add: same_shape_valid)
  have sh2: "same_shape ?g1 ?g2" using u1 by (rule set_forward_shape)
  have v: "valid ?g2 i a = valid g i a" for i a
    using sh1 sh2 by (simp add: same_shape_valid)
  have f: "fwd ?g2 a j = (if a = u then Some n else if a = n then fwd g u j else fwd g a j)" for a
    using n u1 by (simp add: set_forward_fwd)
  have "seg ?g2 j p X (Some u)"
    using X
  proof (rule seg_frame)
    fix a assume "a \<in> set X"
    with d have "a \<noteq> u" "a \<noteq> n" by auto
    with seg_valid [OF X \<open>a \<in> set X\<close>] show "valid ?g2 j a \<and> fwd ?g2 a j = fwd g a j"
      unfolding v f by simp
  qed
  moreover have "seg ?g2 j (fwd g u j) Y None"
    using Y
  proof (rule seg_frame)
    fix a assume "a \<in> set Y"
    with d have "a \<noteq> u" "a \<noteq> n" by auto
    with seg_valid [OF Y \<open>a \<in> set Y\<close>] show "valid ?g2 j a \<and> fwd ?g2 a j = fwd g a j"
      unfolding v f by simp
  qed
  moreover have "n \<noteq> u" using d by auto
  ultimately show ?thesis
    using u n by (simp add: seg_append v f)
qed

text \<open>The loop that connects the new node, level by level.\<close>

lemma connect_levels_spec:
  assumes sh: "same_shape g0 g"
    and jk: "j + k = nl + 1"
    and upd: "\<forall>i. j \<le> i \<and> i \<le> nl \<longrightarrow> i < length upd \<and> upd ! i = Some (last (A i))"
    and Ane: "\<forall>i \<le> nl. A i \<noteq> []"
    and dist: "\<forall>i \<le> nl. distinct (A i @ B i) \<and> n \<notin> set (A i @ B i)"
    and n: "n < length g0"
    and ntall: "\<forall>i \<le> nl. tall g0 i n"
    and nlm: "nl \<le> m"
    and chains: "\<forall>i \<le> m. seg g i (Some H) (A i @ (if i \<le> nl \<and> i < j then [n] else []) @ B i) None"
  shows "\<exists>g'. connect_levels upd n j k g = Some g' \<and> same_shape g0 g' \<and>
          (\<forall>i \<le> m. seg g' i (Some H) (A i @ (if i \<le> nl then [n] else []) @ B i) None)"
  using sh jk upd chains
proof (induction k arbitrary: j g)
  case 0
  then have "j = nl + 1" by simp
  with "0.prems"(1,4) show ?case by (auto simp: less_Suc_eq_le)
next
  case (Suc k)
  let ?u = "last (A j)"
  let ?g1 = "set_forward (set_forward g n j (fwd g ?u j)) ?u j (Some n)"
  from Suc.prems(2) have j: "j \<le> nl" by simp
  with nlm have jm: "j \<le> m" by simp
  from Suc.prems(3) j have u: "j < length upd" "upd ! j = Some ?u" by auto
  then have c: "connect upd n j g = Some ?g1" by (simp add: connect_def)
  from Ane j have A: "A j = butlast (A j) @ [?u]" by simp
  have old: "seg g j (Some H) (butlast (A j) @ ?u # B j) None"
  proof -
    from Suc.prems(4) jm have "seg g j (Some H) (A j @ B j) None" by auto
    then have "seg g j (Some H) ((butlast (A j) @ [?u]) @ B j) None" using A by simp
    then show ?thesis by simp
  qed
  from dist j have "distinct (A j @ B j)" "n \<notin> set (A j @ B j)" by auto
  then have "distinct ((butlast (A j) @ [?u]) @ B j)" "n \<notin> set ((butlast (A j) @ [?u]) @ B j)"
    using A by simp_all
  then have d: "distinct (butlast (A j) @ ?u # B j)" "n \<notin> set (butlast (A j) @ ?u # B j)"
    by simp_all
  have vn: "valid g j n"
    using n ntall j same_shape_valid [OF Suc.prems(1)] by (simp add: valid_def tall_def)
  have new: "seg ?g1 j (Some H) (butlast (A j) @ ?u # n # B j) None"
    using old d vn by (rule seg_splice)
  have vu: "valid g j ?u" using old by (auto simp: seg_append)
  have sh1: "same_shape g (set_forward g n j (fwd g ?u j))" using vn by (rule set_forward_shape)
  have vu1: "valid (set_forward g n j (fwd g ?u j)) j ?u" using vu sh1 by (simp add: same_shape_valid)
  have sh2: "same_shape g ?g1"
    using sh1 set_forward_shape [OF vu1] by (rule same_shape_trans)
  have sh0: "same_shape g0 ?g1" using Suc.prems(1) sh2 by (rule same_shape_trans)
  have f: "fwd ?g1 a i = fwd g a i" if "i \<noteq> j" for a i
    using that vn vu1 by (simp add: set_forward_fwd)
  have ch: "seg ?g1 i (Some H) (A i @ (if i \<le> nl \<and> i < Suc j then [n] else []) @ B i) None"
    if "i \<le> m" for i
  proof (cases "i = j")
    case True
    from Ane j have "butlast (A j) @ [?u] = A j" by simp
    then have "(butlast (A j) @ [?u]) @ n # B j = A j @ n # B j" by (simp only:)
    then have e: "A j @ n # B j = butlast (A j) @ ?u # n # B j" by simp
    have "seg ?g1 j (Some H) (A j @ n # B j) None" by (subst e) (rule new)
    with j show ?thesis unfolding True by simp
  next
    case False
    then have eq: "(i < Suc j) = (i < j)" by auto
    from Suc.prems(4) that
    have sg: "seg g i (Some H) (A i @ (if i \<le> nl \<and> i < j then [n] else []) @ B i) None"
      by blast
    then show ?thesis unfolding eq
    proof (rule seg_frame)
      fix a
      assume "a \<in> set (A i @ (if i \<le> nl \<and> i < j then [n] else []) @ B i)"
      with sg have "valid g i a" by (rule seg_valid)
      then have "valid ?g1 i a" using same_shape_valid [OF sh2] by simp
      with f [OF False] show "valid ?g1 i a \<and> fwd ?g1 a i = fwd g a i" by simp
    qed
  qed
  have "\<exists>g'. connect_levels upd n (Suc j) k ?g1 = Some g' \<and> same_shape g0 g' \<and>
          (\<forall>i \<le> m. seg g' i (Some H) (A i @ (if i \<le> nl then [n] else []) @ B i) None)"
    using sh0 Suc.prems(2,3) ch by (intro Suc.IH) auto
  with c show ?case by simp
qed

lemma fill_header_spec:
  "i + k \<le> length upd \<Longrightarrow>
   length (fill_header H i k upd) = length upd \<and>
   (\<forall>j. fill_header H i k upd ! j = (if i \<le> j \<and> j < i + k then Some H else upd ! j))"
proof (induction k arbitrary: i upd)
  case 0
  show ?case by auto
next
  case (Suc k)
  then have i: "i < length upd" by simp
  then have a: "array_set upd i (Some H) = upd[i := Some H]" by (rule array_set_in_range)
  have "Suc i + k \<le> length (upd[i := Some H])" using Suc.prems by simp
  from Suc.IH [OF this]
  have l: "length (fill_header H (Suc i) k (upd[i := Some H])) = length upd"
    and v: "\<And>j. fill_header H (Suc i) k (upd[i := Some H]) ! j =
              (if Suc i \<le> j \<and> j < Suc i + k then Some H else upd[i := Some H] ! j)"
    by simp_all
  have "fill_header H i (Suc k) upd ! j = (if i \<le> j \<and> j < i + Suc k then Some H else upd ! j)" for j
  proof (cases "j = i")
    case True
    with i show ?thesis by (simp add: a v)
  next
    case False
    then show ?thesis by (auto simp: a v)
  qed
  with l show ?case by (simp add: a)
qed

lemma randomLevel_loop_le:
  "lvl \<le> maxLevel sl \<Longrightarrow> randomLevel_loop rnd sl lvl \<le> maxLevel sl"
proof (induction rnd sl lvl rule: randomLevel_loop.induct)
  case (1 rnd sl lvl)
  show ?case
  proof (cases "rnd lvl < probability sl \<and> lvl < maxLevel sl")
    case True
    with 1 have "randomLevel_loop rnd sl (Suc lvl) \<le> maxLevel sl" by simp
    moreover have "randomLevel_loop rnd sl lvl = randomLevel_loop rnd sl (Suc lvl)"
      by (subst randomLevel_loop.simps) (simp only: True simp_thms if_True)
    ultimately show ?thesis by simp
  next
    case False
    have "randomLevel_loop rnd sl lvl = lvl"
      by (subst randomLevel_loop.simps) (simp only: False simp_thms if_False)
    with 1 show ?thesis by simp
  qed
qed

lemma randomLevel_le: "randomLevel rnd sl \<le> maxLevel sl"
  by (simp add: randomLevel_def randomLevel_loop_le)

lemma precedes_view: "precedes n e = row_precedes (node_view n) e"
  by (simp add: precedes_def row_precedes_def node_view_def)

text \<open>Facts about the position that the search finds.\<close>

lemma search_position:
  assumes inv: "skiplist_inv sl L" and e: "is_int (IScoreDetails.score e)"
  defines "P \<equiv> \<lambda>a. precedes (nodes sl ! a) e"
  shows "\<forall>a \<in> set (takeWhile P L). P a"
    and "\<forall>b \<in> set (dropWhile P L). \<not> P b"
proof -
  show "\<forall>a \<in> set (takeWhile P L). P a" by (auto dest: set_takeWhileD)
  have s: "sorted_wrt (\<lambda>a b. node_before (nodes sl ! a) (nodes sl ! b)) L"
    using inv by (simp add: skiplist_inv_def)
  have i: "\<forall>a \<in> set L. is_int (SkipListNode.score (nodes sl ! a))"
    using inv by (simp add: skiplist_inv_def)
  show "\<forall>b \<in> set (dropWhile P L). \<not> P b"
    using s
  proof (rule takeWhile_sorted_split)
    fix a b
    assume "a \<in> set L" "b \<in> set L" "node_before (nodes sl ! a) (nodes sl ! b)" "P b"
    with i e show "P a" unfolding P_def by (blast intro: before_precedes)
  qed
qed

lemma filter_tall0:
  assumes "\<forall>a \<in> set xs. tall h 0 a"
  shows "filter (tall h 0) xs = xs"
  using assms by (simp add: filter_id_conv)

text \<open>The result of the search loops on a list that satisfies the invariant.\<close>

lemma search_result:
  assumes inv: "skiplist_inv sl L" and e: "is_int (IScoreDetails.score e)"
    and L1: "L1 = takeWhile (\<lambda>a. precedes (nodes sl ! a) e) L"
    and L2: "L2 = dropWhile (\<lambda>a. precedes (nodes sl ! a) e) L"
  shows "\<exists>upd. search_levels (nodes sl) e (level sl) (header sl) (replicate (maxLevel sl + 1) None)
                = Some (last (header sl # L1), upd) \<and>
              length upd = maxLevel sl + 1 \<and>
              (\<forall>j \<le> level sl. upd ! j = Some (last (filter (tall (nodes sl) j) (header sl # L1))))"
    and "fwd (nodes sl) (last (header sl # L1)) 0 = (case L2 of [] \<Rightarrow> None | x # xs \<Rightarrow> Some x)"
proof -
  let ?h = "nodes sl" and ?H = "header sl"
  have L: "L = L1 @ L2" unfolding L1 L2 by simp
  have p1: "\<forall>a \<in> set L1. precedes (?h ! a) e" and p2: "\<forall>b \<in> set L2. \<not> precedes (?h ! b) e"
    unfolding L1 L2 using search_position [OF inv e] by blast+
  have chains: "\<forall>j \<le> maxLevel sl. seg ?h j (Some ?H) (filter (tall ?h j) (?H # L1 @ L2)) None"
    using inv unfolding skiplist_inv_def L by blast
  have Hlen: "length (forward (?h ! ?H)) = maxLevel sl + 1"
    using inv unfolding skiplist_inv_def by blast
  have Ht: "tall ?h j ?H" if "j \<le> maxLevel sl" for j
    using that Hlen by (simp add: tall_def)
  have lv: "level sl \<le> maxLevel sl" using inv unfolding skiplist_inv_def by blast
  have "\<forall>a \<in> set (L1 @ L2). tall ?h 0 a"
    using inv unfolding skiplist_inv_def L by blast
  with Ht [of 0] have t0: "\<forall>a \<in> set (?H # L1 @ L2). tall ?h 0 a" by simp
  have "\<exists>upd. search_levels ?h e (level sl) ?H (replicate (maxLevel sl + 1) None)
            = Some (last (filter (tall ?h 0) (?H # L1)), upd) \<and>
          length upd = length (replicate (maxLevel sl + 1) (None :: nat option)) \<and>
          (\<forall>j \<le> level sl. upd ! j = Some (last (filter (tall ?h j) (?H # L1)))) \<and>
          (\<forall>j. level sl < j \<longrightarrow> upd ! j = replicate (maxLevel sl + 1) None ! j)"
  proof (rule search_levels_spec [where ?L2.0 = L2])
    show "\<forall>j\<le>level sl. seg ?h j (Some ?H) (filter (tall ?h j) (?H # L1 @ L2)) None"
      using chains lv by auto
    show "\<forall>a\<in>set L1. precedes (?h ! a) e" by (rule p1)
    show "\<forall>b\<in>set L2. \<not> precedes (?h ! b) e" by (rule p2)
    show "\<forall>j\<le>level sl. tall ?h j ?H" using Ht lv by auto
    show "?H \<in> set (?H # L1)" by simp
    show "tall ?h (level sl) ?H" using Ht lv by auto
    show "level sl < length (replicate (maxLevel sl + 1) (None :: nat option))" using lv by simp
  qed
  moreover have f1: "filter (tall ?h 0) (?H # L1) = ?H # L1"
    using t0 by (intro filter_tall0) auto
  ultimately show "\<exists>upd. search_levels ?h e (level sl) ?H (replicate (maxLevel sl + 1) None)
                = Some (last (?H # L1), upd) \<and>
              length upd = maxLevel sl + 1 \<and>
              (\<forall>j \<le> level sl. upd ! j = Some (last (filter (tall ?h j) (?H # L1))))"
    by (simp only: length_replicate) blast
  have "filter (tall ?h 0) (?H # L1 @ L2) = ?H # L1 @ L2" using t0 by (rule filter_tall0)
  moreover from chains have "seg ?h 0 (Some ?H) (filter (tall ?h 0) (?H # L1 @ L2)) None" by blast
  ultimately have "seg ?h 0 (Some ?H) (?H # L1 @ L2) None" by (simp only:)
  then have "seg ?h 0 (Some ?H) ((butlast (?H # L1) @ [last (?H # L1)]) @ L2) None"
    by (simp only: append_butlast_last_id list.distinct(2) not_False_eq_True append_Cons)
  then have "seg ?h 0 (fwd ?h (last (?H # L1)) 0) L2 None"
    unfolding seg_append [of ?h 0 _ "butlast (?H # L1) @ [last (?H # L1)]"] seg_snoc by auto
  then show "fwd ?h (last (?H # L1)) 0 = (case L2 of [] \<Rightarrow> None | x # xs \<Rightarrow> Some x)"
    by (cases L2) auto
qed

lemma seg_same_forward:
  assumes "length h' = length h" "\<And>a. forward (h' ! a) = forward (h ! a)"
  shows "seg h' i p as q = seg h i p as q"
  using assms by (induction as arbitrary: p) (auto simp: valid_def fwd_def)

lemma precedes_before:
  assumes "precedes na e"
    and "SkipListNode.user_id m = IScoreDetails.user_id e"
    and "SkipListNode.score m = IScoreDetails.score e"
  shows "node_before na m"
  using assms by (simp add: precedes_def node_before_def)

lemma before_after_replace:
  assumes "\<not> precedes nx e" "node_before nx nb"
    and "SkipListNode.user_id m = IScoreDetails.user_id e"
    and "SkipListNode.score m = IScoreDetails.score e"
    and "is_int (SkipListNode.score nx)" "is_int (SkipListNode.score nb)"
      "is_int (IScoreDetails.score e)"
  shows "node_before m nb"
proof -
  obtain a b c where "SkipListNode.score nx = Num a" "SkipListNode.score nb = Num b"
    "IScoreDetails.score e = Num c"
    using assms(5-7) by (blast dest: is_int_Num)
  with assms(1-4) show ?thesis
    by (auto simp: node_before_def precedes_def)
qed

lemma before_head:
  assumes "\<not> precedes nx e" "SkipListNode.user_id nx \<noteq> IScoreDetails.user_id e"
    and "SkipListNode.user_id m = IScoreDetails.user_id e"
    and "SkipListNode.score m = IScoreDetails.score e"
    and "is_int (SkipListNode.score nx)" "is_int (IScoreDetails.score e)"
  shows "node_before m nx"
proof -
  obtain a c where "SkipListNode.score nx = Num a" "IScoreDetails.score e = Num c"
    using assms(5,6) by (blast dest: is_int_Num)
  with assms(1-4) show ?thesis
    by (auto simp: node_before_def precedes_def)
qed

lemma node_before_cong:
  assumes "SkipListNode.user_id n' = SkipListNode.user_id n" "SkipListNode.score n' = SkipListNode.score n"
    and "SkipListNode.user_id m' = SkipListNode.user_id m" "SkipListNode.score m' = SkipListNode.score m"
  shows "node_before n' m' = node_before n m"
  using assms by (simp add: node_before_def)

text \<open>The branch of \<^verbatim>\<open>insertScore\<close> that overwrites the score of the node found.\<close>

lemma overwrite_inv:
  assumes inv: "skiplist_inv sl L" and e: "is_int (IScoreDetails.score e)"
    and L1: "L1 = takeWhile (\<lambda>a. precedes (nodes sl ! a) e) L"
    and L2: "dropWhile (\<lambda>a. precedes (nodes sl ! a) e) L = x # R"
    and uid: "SkipListNode.user_id (nodes sl ! x) = IScoreDetails.user_id e"
  defines "h' \<equiv> (nodes sl)[x := (nodes sl ! x)\<lparr>SkipListNode.score := IScoreDetails.score e\<rparr>]"
  shows "skiplist_inv (sl\<lparr>nodes := h'\<rparr>) L"
    and "map (\<lambda>a. node_view (h' ! a)) L =
         map (\<lambda>a. node_view (nodes sl ! a)) L1 @
         (IScoreDetails.user_id e, IScoreDetails.score e, SkipListNode.game_id (nodes sl ! x)) #
         map (\<lambda>a. node_view (nodes sl ! a)) R"
proof -
  let ?h = "nodes sl"
  let ?R0 = "\<lambda>a b. node_before (?h ! a) (?h ! b)"
  let ?R' = "\<lambda>a b. node_before (h' ! a) (h' ! b)"
  have L: "L = L1 @ x # R" unfolding L1 L2 [symmetric] by simp
  have p1: "\<forall>a \<in> set L1. precedes (?h ! a) e"
    and p2: "\<forall>b \<in> set (x # R). \<not> precedes (?h ! b) e"
    unfolding L1 L2 [symmetric] using search_position [OF inv e] by blast+
  have dist: "distinct (L1 @ x # R)" using inv unfolding skiplist_inv_def L by simp
  then have xL1: "x \<notin> set L1" and xR: "x \<notin> set R" by auto
  have xH: "x \<noteq> header sl" using inv unfolding skiplist_inv_def L by auto
  have xlen: "x < length ?h" using inv unfolding skiplist_inv_def L by simp
  have ints: "\<forall>a \<in> set (L1 @ x # R). is_int (SkipListNode.score (?h ! a))"
    using inv unfolding skiplist_inv_def L by blast
  have len: "length h' = length ?h" by (simp add: h'_def)
  have other: "h' ! a = ?h ! a" if "a \<noteq> x" for a using that by (simp add: h'_def)
  have atx: "h' ! x = (?h ! x)\<lparr>SkipListNode.score := IScoreDetails.score e\<rparr>"
    using xlen by (simp add: h'_def)
  have fw: "forward (h' ! a) = forward (?h ! a)" for a
    by (cases "a = x") (simp_all add: other atx)
  have tl: "tall h' i a = tall ?h i a" for i a by (simp add: tall_def fw)
  have sg: "seg h' i p as q = seg ?h i p as q" for i p as q
    using len fw by (rule seg_same_forward)
  have s0: "sorted_wrt ?R0 (L1 @ x # R)" using inv unfolding skiplist_inv_def L by blast
  have s1: "sorted_wrt ?R' L1"
  proof (rule sorted_wrt_mono_rel [of L1 ?R0])
    show "sorted_wrt ?R0 L1" using s0 by (simp add: sorted_wrt_append)
    fix a b assume "a \<in> set L1" "b \<in> set L1" "?R0 a b"
    with xL1 have "a \<noteq> x" "b \<noteq> x" by auto
    with \<open>?R0 a b\<close> show "?R' a b" by (simp add: other)
  qed
  have s2: "sorted_wrt ?R' R"
  proof (rule sorted_wrt_mono_rel [of R ?R0])
    show "sorted_wrt ?R0 R" using s0 by (simp add: sorted_wrt_append)
    fix a b assume "a \<in> set R" "b \<in> set R" "?R0 a b"
    with xR have "a \<noteq> x" "b \<noteq> x" by auto
    with \<open>?R0 a b\<close> show "?R' a b" by (simp add: other)
  qed
  have s3: "?R' a x" if "a \<in> set L1" for a
  proof -
    from that p1 have "precedes (?h ! a) e" by blast
    then have "node_before (?h ! a) (h' ! x)"
      by (rule precedes_before) (simp_all add: atx uid)
    moreover from that xL1 have "a \<noteq> x" by auto
    ultimately show ?thesis by (simp add: other)
  qed
  have s4: "?R' x b" if "b \<in> set R" for b
  proof -
    from that xR have bx: "b \<noteq> x" by auto
    from s0 that have "?R0 x b" by (simp add: sorted_wrt_append)
    have "node_before (h' ! x) (?h ! b)"
    proof (rule before_after_replace [where nx = "?h ! x" and e = e])
      show "\<not> precedes (?h ! x) e" using p2 by simp
      show "node_before (?h ! x) (?h ! b)" by fact
      show "SkipListNode.user_id (h' ! x) = IScoreDetails.user_id e" by (simp add: atx uid)
      show "SkipListNode.score (h' ! x) = IScoreDetails.score e" by (simp add: atx)
      show "is_int (SkipListNode.score (?h ! x))" using ints by simp
      show "is_int (SkipListNode.score (?h ! b))" using ints that by simp
      show "is_int (IScoreDetails.score e)" by (rule e)
    qed
    with bx show ?thesis by (simp add: other)
  qed
  have s5: "?R' a b" if "a \<in> set L1" "b \<in> set R" for a b
  proof -
    from s0 that have "?R0 a b" by (simp add: sorted_wrt_append)
    moreover from that xL1 xR have "a \<noteq> x" "b \<noteq> x" by auto
    ultimately show ?thesis by (simp add: other)
  qed
  have sorted': "sorted_wrt ?R' (L1 @ x # R)"
    using s1 s2 s3 s4 s5 by (auto simp: sorted_wrt_append)
  have nodes': "\<forall>a \<in> set (L1 @ x # R). a < length h' \<and> tall h' 0 a \<and>
                    \<not> tall h' (level sl + 1) a \<and> is_int (SkipListNode.score (h' ! a))"
  proof
    fix a assume a: "a \<in> set (L1 @ x # R)"
    with inv have "a < length ?h \<and> tall ?h 0 a \<and> \<not> tall ?h (level sl + 1) a \<and>
        is_int (SkipListNode.score (?h ! a))"
      unfolding skiplist_inv_def L by blast
    moreover have "is_int (SkipListNode.score (h' ! a))"
    proof (cases "a = x")
      case True
      with e show ?thesis by (simp add: atx)
    next
      case False
      with ints a show ?thesis by (simp add: other)
    qed
    ultimately show "a < length h' \<and> tall h' 0 a \<and>
                    \<not> tall h' (level sl + 1) a \<and> is_int (SkipListNode.score (h' ! a))"
      by (simp add: len tl)
  qed
  have tl': "tall h' i = tall ?h i" for i using tl by blast
  show "skiplist_inv (sl\<lparr>nodes := h'\<rparr>) L"
    using inv nodes' sorted' xH
    unfolding skiplist_inv_def L by (simp add: len other sg tl')
  have same: "node_view (h' ! a) = node_view (?h ! a)" if "a \<noteq> x" for a
    using that by (simp add: other)
  have "map (\<lambda>a. node_view (h' ! a)) L1 = map (\<lambda>a. node_view (?h ! a)) L1"
  proof (rule map_cong [OF refl])
    fix a assume "a \<in> set L1"
    with xL1 have "a \<noteq> x" by auto
    then show "node_view (h' ! a) = node_view (?h ! a)" by (rule same)
  qed
  moreover have "map (\<lambda>a. node_view (h' ! a)) R = map (\<lambda>a. node_view (?h ! a)) R"
  proof (rule map_cong [OF refl])
    fix a assume "a \<in> set R"
    with xR have "a \<noteq> x" by auto
    then show "node_view (h' ! a) = node_view (?h ! a)" by (rule same)
  qed
  moreover have "node_view (h' ! x) =
      (IScoreDetails.user_id e, IScoreDetails.score e, SkipListNode.game_id (?h ! x))"
    by (simp add: atx node_view_def uid)
  ultimately show "map (\<lambda>a. node_view (h' ! a)) L =
         map (\<lambda>a. node_view (?h ! a)) L1 @
         (IScoreDetails.user_id e, IScoreDetails.score e, SkipListNode.game_id (?h ! x)) #
         map (\<lambda>a. node_view (?h ! a)) R"
    unfolding L by simp
qed

lemma tall_mono: "tall h i a \<Longrightarrow> j \<le> i \<Longrightarrow> tall h j a"
  by (simp add: tall_def)

lemma filter_none: "\<forall>a \<in> set xs. \<not> Q a \<Longrightarrow> filter Q xs = []"
  by (induction xs) auto

text \<open>The branch of \<^verbatim>\<open>insertScore\<close> that allocates and connects a new node.\<close>

lemma insert_inv:
  assumes inv: "skiplist_inv sl L" and e: "is_int (IScoreDetails.score e)"
    and L1: "L1 = takeWhile (\<lambda>a. precedes (nodes sl ! a) e) L"
    and L2: "L2 = dropWhile (\<lambda>a. precedes (nodes sl ! a) e) L"
    and miss: "case L2 of [] \<Rightarrow> True
               | x # xs \<Rightarrow> SkipListNode.user_id (nodes sl ! x) \<noteq> IScoreDetails.user_id e"
    and ulen: "length upd = maxLevel sl + 1"
    and uval: "\<forall>j \<le> level sl. upd ! j = Some (last (filter (tall (nodes sl) j) (header sl # L1)))"
    and nl: "nl \<le> maxLevel sl"
    and upd': "upd' = (if nl > level sl
                       then fill_header (header sl) (level sl + 1) (nl - level sl) upd else upd)"
    and n: "n = length (nodes sl)"
    and g0: "g0 = nodes sl @ [SkipListNode_new (IScoreDetails.user_id e) (IScoreDetails.game_id e)
                               (IScoreDetails.score e) nl]"
    and lv': "lv' = (if nl > level sl then nl else level sl)"
  shows "\<exists>g'. connect_levels upd' n 0 (nl + 1) g0 = Some g' \<and>
           skiplist_inv (sl\<lparr>nodes := g', level := lv'\<rparr>) (L1 @ n # L2) \<and>
           map (\<lambda>a. node_view (g' ! a)) (L1 @ n # L2) =
             map (\<lambda>a. node_view (nodes sl ! a)) L1 @
             (IScoreDetails.user_id e, IScoreDetails.score e, IScoreDetails.game_id e) #
             map (\<lambda>a. node_view (nodes sl ! a)) L2"
proof -
  let ?h = "nodes sl" and ?H = "header sl" and ?m = "maxLevel sl" and ?lv = "level sl"
  let ?R0 = "\<lambda>a b. node_before (?h ! a) (?h ! b)"
  let ?A = "\<lambda>i. filter (tall g0 i) (?H # L1)"
  let ?B = "\<lambda>i. filter (tall g0 i) L2"
  have L: "L = L1 @ L2" unfolding L1 L2 by simp
  have p1: "\<forall>a \<in> set L1. precedes (?h ! a) e" and p2: "\<forall>b \<in> set L2. \<not> precedes (?h ! b) e"
    unfolding L1 L2 using search_position [OF inv e] by blast+
  have Hlt: "?H < n" using inv unfolding skiplist_inv_def n by blast
  have Hlen: "length (forward (?h ! ?H)) = ?m + 1" using inv unfolding skiplist_inv_def by blast
  have lvm: "?lv \<le> ?m" using inv unfolding skiplist_inv_def by blast
  have dist: "distinct (?H # L1 @ L2)" using inv unfolding skiplist_inv_def L by blast
  have old: "\<forall>a \<in> set (L1 @ L2). a < n \<and> tall ?h 0 a \<and> \<not> tall ?h (?lv + 1) a \<and>
                is_int (SkipListNode.score (?h ! a))"
    using inv unfolding skiplist_inv_def L n by blast
  have chains: "\<forall>i \<le> ?m. seg ?h i (Some ?H) (filter (tall ?h i) (?H # L1 @ L2)) None"
    using inv unfolding skiplist_inv_def L by blast
  have s0: "sorted_wrt ?R0 (L1 @ L2)" using inv unfolding skiplist_inv_def L by blast
  have lt: "a < n" if "a \<in> set (?H # L1 @ L2)" for a using that Hlt old by auto
  have g0_old: "g0 ! a = ?h ! a" if "a < n" for a using that by (simp add: g0 n nth_append)
  have g0_new: "g0 ! n = SkipListNode_new (IScoreDetails.user_id e) (IScoreDetails.game_id e)
                               (IScoreDetails.score e) nl"
    by (simp add: g0 n)
  have g0_len: "length g0 = n + 1" by (simp add: g0 n)
  have tall_old: "tall g0 i a = tall ?h i a" if "a < n" for i a
    using that by (simp add: tall_def g0_old)
  have tall_new: "tall g0 i n = (i \<le> nl)" for i
    by (auto simp: tall_def g0_new SkipListNode_new_def)
  have Htall: "tall ?h i ?H" if "i \<le> ?m" for i using that Hlen by (simp add: tall_def)
  have A_eq: "?A i = filter (tall ?h i) (?H # L1)" for i
    using lt by (intro filter_cong refl tall_old) auto
  have B_eq: "?B i = filter (tall ?h i) L2" for i
    using lt by (intro filter_cong refl tall_old) auto
  have A_top: "?A i = [?H]" if "?lv < i" "i \<le> ?m" for i
  proof -
    have "\<not> tall ?h i a" if "a \<in> set L1" for a
    proof
      assume t: "tall ?h i a"
      have "tall ?h (?lv + 1) a" by (rule tall_mono [OF t]) (use \<open>?lv < i\<close> in simp)
      with old that show False by auto
    qed
    then have "filter (tall ?h i) L1 = []" by (intro filter_none) blast
    with Htall [OF that(2)] show ?thesis unfolding A_eq by simp
  qed
  have u: "i < length upd' \<and> upd' ! i = Some (last (?A i))" if "i \<le> nl" for i
  proof (cases "nl > ?lv")
    case False
    with that uval ulen nl show ?thesis unfolding upd' A_eq by auto
  next
    case True
    have le: "(?lv + 1) + (nl - ?lv) \<le> length upd" using True nl ulen by simp
    note f = fill_header_spec [OF le, of ?H]
    have u': "upd' = fill_header ?H (?lv + 1) (nl - ?lv) upd" using True unfolding upd' by simp
    show ?thesis
    proof (cases "i \<le> ?lv")
      case True
      with f uval ulen nl that show ?thesis unfolding u' A_eq by auto
    next
      case False
      then have "?lv < i" by simp
      moreover from that nl have "i \<le> ?m" by simp
      ultimately have "?A i = [?H]" by (rule A_top)
      with f False that ulen nl show ?thesis unfolding u' by auto
    qed
  qed
  have ch0: "seg g0 i (Some ?H) (?A i @ (if i \<le> nl \<and> i < 0 then [n] else []) @ ?B i) None"
    if "i \<le> ?m" for i
  proof -
    from chains that have c: "seg ?h i (Some ?H) (filter (tall ?h i) (?H # L1 @ L2)) None" by blast
    have "seg g0 i (Some ?H) (filter (tall ?h i) (?H # L1 @ L2)) None"
      using c
    proof (rule seg_frame)
      fix a assume a: "a \<in> set (filter (tall ?h i) (?H # L1 @ L2))"
      then have "a \<in> set (?H # L1 @ L2)" by (simp only: set_filter) blast
      then have an: "a < n" by (rule lt)
      from c a have "valid ?h i a" by (rule seg_valid)
      with an show "valid g0 i a \<and> fwd g0 a i = fwd ?h a i"
        by (simp add: valid_def fwd_def g0_old g0_len n)
    qed
    moreover have "filter (tall ?h i) (?H # L1 @ L2) = ?A i @ ?B i"
      unfolding A_eq B_eq by simp
    ultimately show ?thesis by simp
  qed
  have dAB: "distinct (?A i @ ?B i) \<and> n \<notin> set (?A i @ ?B i)" for i
  proof -
    have AB: "?A i @ ?B i = filter (tall g0 i) ((?H # L1) @ L2)" by (simp only: filter_append)
    have "distinct ((?H # L1) @ L2)" using dist by simp
    then have "distinct (?A i @ ?B i)" unfolding AB by (rule distinct_filter)
    moreover have "n \<notin> set ((?H # L1) @ L2)" using lt by fastforce
    then have "n \<notin> set (?A i @ ?B i)"
      unfolding AB using filter_is_subset [of "tall g0 i" "(?H # L1) @ L2"] by blast
    ultimately show ?thesis by blast
  qed
  have "\<exists>g'. connect_levels upd' n 0 (nl + 1) g0 = Some g' \<and> same_shape g0 g' \<and>
          (\<forall>i \<le> ?m. seg g' i (Some ?H) (?A i @ (if i \<le> nl then [n] else []) @ ?B i) None)"
  proof (rule connect_levels_spec [where ?g0.0 = g0 and A = ?A and B = ?B])
    show "same_shape g0 g0" by (rule same_shape_refl)
    show "0 + (nl + 1) = nl + 1" by simp
    show "\<forall>i. 0 \<le> i \<and> i \<le> nl \<longrightarrow> i < length upd' \<and> upd' ! i = Some (last (?A i))"
      using u by blast
    show "\<forall>i \<le> nl. ?A i \<noteq> []"
    proof (intro allI impI)
      fix i assume "i \<le> nl"
      with nl have "tall ?h i ?H" by (intro Htall) simp
      then show "?A i \<noteq> []" unfolding A_eq by simp
    qed
    show "\<forall>i \<le> nl. distinct (?A i @ ?B i) \<and> n \<notin> set (?A i @ ?B i)" using dAB by blast
    show "n < length g0" by (simp add: g0_len)
    show "\<forall>i \<le> nl. tall g0 i n" by (simp add: tall_new)
    show "nl \<le> ?m" by (rule nl)
    show "\<forall>i \<le> ?m. seg g0 i (Some ?H) (?A i @ (if i \<le> nl \<and> i < 0 then [n] else []) @ ?B i) None"
      using ch0 by blast
  qed
  then obtain g' where c: "connect_levels upd' n 0 (nl + 1) g0 = Some g'"
    and sh: "same_shape g0 g'"
    and ch: "\<forall>i \<le> ?m. seg g' i (Some ?H) (?A i @ (if i \<le> nl then [n] else []) @ ?B i) None"
    by blast
  let ?R' = "\<lambda>a b. node_before (g' ! a) (g' ! b)"
  have len': "length g' = n + 1" using sh g0_len by (simp add: same_shape_def)
  have shape: "length (forward (g' ! a)) = length (forward (g0 ! a)) \<and>
      SkipListNode.user_id (g' ! a) = SkipListNode.user_id (g0 ! a) \<and>
      SkipListNode.score (g' ! a) = SkipListNode.score (g0 ! a) \<and>
      SkipListNode.game_id (g' ! a) = SkipListNode.game_id (g0 ! a)" if "a < n + 1" for a
    using sh that g0_len unfolding same_shape_def by simp
  have key_old: "SkipListNode.user_id (g' ! a) = SkipListNode.user_id (?h ! a) \<and>
      SkipListNode.score (g' ! a) = SkipListNode.score (?h ! a) \<and>
      SkipListNode.game_id (g' ! a) = SkipListNode.game_id (?h ! a)" if "a < n" for a
    using shape [of a] that by (simp add: g0_old)
  have key_new: "SkipListNode.user_id (g' ! n) = IScoreDetails.user_id e \<and>
      SkipListNode.score (g' ! n) = IScoreDetails.score e \<and>
      SkipListNode.game_id (g' ! n) = IScoreDetails.game_id e"
    using shape [of n] by (simp add: g0_new SkipListNode_new_def)
  have tall': "tall g' i a = tall g0 i a" if "a < n + 1" for i a
    using shape [OF that] by (simp add: tall_def)
  have R_old: "?R' a b = ?R0 a b" if "a < n" "b < n" for a b
    using key_old [OF that(1)] key_old [OF that(2)] by (intro node_before_cong) simp_all
  have lt1: "a < n" if "a \<in> set L1" for a using that lt by simp
  have lt2: "a < n" if "a \<in> set L2" for a using that lt by simp
  have i1: "?H < length g'" using Hlt len' by simp
  have i2: "length (forward (g' ! ?H)) = ?m + 1"
    using shape [of ?H] Hlt Hlen by (simp add: g0_old)
  have i3: "lv' \<le> ?m" using nl lvm unfolding lv' by simp
  have i4: "distinct (?H # L1 @ n # L2)"
  proof -
    have "n \<notin> set (?H # L1 @ L2)" using lt by fastforce
    with dist show ?thesis by auto
  qed
  have lvle: "?lv \<le> lv'" "nl \<le> lv'" unfolding lv' by simp_all
  have i5: "\<forall>a \<in> set (L1 @ n # L2). a < length g' \<and> tall g' 0 a \<and> \<not> tall g' (lv' + 1) a \<and>
                is_int (SkipListNode.score (g' ! a))"
  proof
    fix a assume a: "a \<in> set (L1 @ n # L2)"
    show "a < length g' \<and> tall g' 0 a \<and> \<not> tall g' (lv' + 1) a \<and>
                is_int (SkipListNode.score (g' ! a))"
    proof (cases "a = n")
      case True
      with e lvle(2) show ?thesis by (simp add: len' tall' tall_new key_new)
    next
      case False
      with a have aL: "a \<in> set (L1 @ L2)" by auto
      with old have o: "a < n" "tall ?h 0 a" "\<not> tall ?h (?lv + 1) a"
        "is_int (SkipListNode.score (?h ! a))" by blast+
      have "\<not> tall ?h (lv' + 1) a"
      proof
        assume t: "tall ?h (lv' + 1) a"
        have "tall ?h (?lv + 1) a" by (rule tall_mono [OF t]) (use lvle(1) in simp)
        with o(3) show False by simp
      qed
      with o show ?thesis by (simp add: len' tall' tall_old key_old)
    qed
  qed
  have i6: "seg g' i (Some ?H) (filter (tall g' i) (?H # L1 @ n # L2)) None" if "i \<le> ?m" for i
  proof -
    have "filter (tall g' i) ((?H # L1) @ n # L2) = filter (tall g0 i) ((?H # L1) @ n # L2)"
    proof (rule filter_cong [OF refl])
      fix a assume "a \<in> set ((?H # L1) @ n # L2)"
      then have "a = n \<or> a \<in> set (?H # L1 @ L2)" by auto
      then have "a < n + 1" using lt by fastforce
      then show "tall g' i a = tall g0 i a" by (rule tall')
    qed
    also have "\<dots> = ?A i @ (if i \<le> nl then [n] else []) @ ?B i"
      by (simp only: filter_append filter.simps tall_new) simp
    finally have "filter (tall g' i) (?H # L1 @ n # L2) = ?A i @ (if i \<le> nl then [n] else []) @ ?B i"
      by simp
    with ch that show ?thesis by simp
  qed
  have s1: "sorted_wrt ?R' L1"
  proof (rule sorted_wrt_mono_rel [of L1 ?R0])
    show "sorted_wrt ?R0 L1" using s0 by (simp add: sorted_wrt_append)
    fix a b assume "a \<in> set L1" "b \<in> set L1" "?R0 a b"
    then show "?R' a b" using R_old lt1 by simp
  qed
  have s2: "sorted_wrt ?R' L2"
  proof (rule sorted_wrt_mono_rel [of L2 ?R0])
    show "sorted_wrt ?R0 L2" using s0 by (simp add: sorted_wrt_append)
    fix a b assume "a \<in> set L2" "b \<in> set L2" "?R0 a b"
    then show "?R' a b" using R_old lt2 by simp
  qed
  have s3: "?R' a n" if "a \<in> set L1" for a
  proof -
    from that p1 have "precedes (?h ! a) e" by blast
    then have "node_before (?h ! a) (g' ! n)"
      by (rule precedes_before) (simp_all add: key_new)
    moreover from that have "a < n" by (rule lt1)
    ultimately show ?thesis using key_old [of a] by (simp add: node_before_def)
  qed
  have s4: "?R' n b" if "b \<in> set L2" for b
  proof -
    from that obtain x xs where L2x: "L2 = x # xs" by (cases L2) auto
    have xn: "x < n" using lt2 L2x by simp
    have bn: "b < n" using that by (rule lt2)
    have px: "\<not> precedes (?h ! x) e" using p2 L2x by simp
    have ix: "is_int (SkipListNode.score (?h ! x))" using old L2x by simp
    have ib: "is_int (SkipListNode.score (?h ! b))" using old that by simp
    have "node_before (g' ! n) (?h ! b)"
    proof (cases "b = x")
      case True
      have "node_before (g' ! n) (?h ! x)"
      proof (rule before_head [where e = e])
        show "\<not> precedes (?h ! x) e" by (rule px)
        show "SkipListNode.user_id (?h ! x) \<noteq> IScoreDetails.user_id e" using miss L2x by simp
        show "SkipListNode.user_id (g' ! n) = IScoreDetails.user_id e" using key_new by simp
        show "SkipListNode.score (g' ! n) = IScoreDetails.score e" using key_new by simp
        show "is_int (SkipListNode.score (?h ! x))" by (rule ix)
        show "is_int (IScoreDetails.score e)" by (rule e)
      qed
      with True show ?thesis by simp
    next
      case False
      with that L2x have "b \<in> set xs" by simp
      with s0 L2x have xb: "?R0 x b" by (simp add: sorted_wrt_append)
      show ?thesis
      proof (rule before_after_replace [where nx = "?h ! x" and e = e])
        show "\<not> precedes (?h ! x) e" by (rule px)
        show "node_before (?h ! x) (?h ! b)" by (rule xb)
        show "SkipListNode.user_id (g' ! n) = IScoreDetails.user_id e" using key_new by simp
        show "SkipListNode.score (g' ! n) = IScoreDetails.score e" using key_new by simp
        show "is_int (SkipListNode.score (?h ! x))" by (rule ix)
        show "is_int (SkipListNode.score (?h ! b))" by (rule ib)
        show "is_int (IScoreDetails.score e)" by (rule e)
      qed
    qed
    then show ?thesis using key_old [OF bn] by (simp add: node_before_def)
  qed
  have s5: "?R' a b" if "a \<in> set L1" "b \<in> set L2" for a b
  proof -
    from s0 that have "?R0 a b" by (simp add: sorted_wrt_append)
    then show ?thesis using R_old lt1 lt2 that by simp
  qed
  have i7: "sorted_wrt ?R' (L1 @ n # L2)"
    using s1 s2 s3 s4 s5 by (auto simp: sorted_wrt_append)
  have inv': "skiplist_inv (sl\<lparr>nodes := g', level := lv'\<rparr>) (L1 @ n # L2)"
    unfolding skiplist_inv_def using i1 i2 i3 i4 i5 i6 i7 by simp
  have v1: "map (\<lambda>a. node_view (g' ! a)) L1 = map (\<lambda>a. node_view (?h ! a)) L1"
  proof (rule map_cong [OF refl])
    fix a assume "a \<in> set L1"
    then have "a < n" by (rule lt1)
    then show "node_view (g' ! a) = node_view (?h ! a)" using key_old by (simp add: node_view_def)
  qed
  have v2: "map (\<lambda>a. node_view (g' ! a)) L2 = map (\<lambda>a. node_view (?h ! a)) L2"
  proof (rule map_cong [OF refl])
    fix a assume "a \<in> set L2"
    then have "a < n" by (rule lt2)
    then show "node_view (g' ! a) = node_view (?h ! a)" using key_old by (simp add: node_view_def)
  qed
  have v3: "node_view (g' ! n) =
      (IScoreDetails.user_id e, IScoreDetails.score e, IScoreDetails.game_id e)"
    using key_new by (simp add: node_view_def)
  from c inv' v1 v2 v3 show ?thesis by simp
qed

lemma upsert_view:
  assumes V: "V = map (\<lambda>a. node_view (h ! a)) L"
    and L1: "L1 = takeWhile (\<lambda>a. precedes (h ! a) e) L"
  shows "upsert e V =
     (case dropWhile (\<lambda>a. precedes (h ! a) e) L of
        [] \<Rightarrow> map (\<lambda>a. node_view (h ! a)) L1 @
               [(IScoreDetails.user_id e, IScoreDetails.score e, IScoreDetails.game_id e)]
      | x # R \<Rightarrow>
          if SkipListNode.user_id (h ! x) = IScoreDetails.user_id e
          then map (\<lambda>a. node_view (h ! a)) L1 @
               (IScoreDetails.user_id e, IScoreDetails.score e, SkipListNode.game_id (h ! x)) #
               map (\<lambda>a. node_view (h ! a)) R
          else map (\<lambda>a. node_view (h ! a)) L1 @
               (IScoreDetails.user_id e, IScoreDetails.score e, IScoreDetails.game_id e) #
               map (\<lambda>a. node_view (h ! a)) (x # R))"
proof -
  have c: "(\<lambda>r. row_precedes r e) \<circ> (\<lambda>a. node_view (h ! a)) = (\<lambda>a. precedes (h ! a) e)"
    by (simp add: fun_eq_iff precedes_view)
  have t: "takeWhile (\<lambda>r. row_precedes r e) V = map (\<lambda>a. node_view (h ! a)) L1"
    unfolding V L1 by (simp add: takeWhile_map c)
  have d: "dropWhile (\<lambda>r. row_precedes r e) V =
           map (\<lambda>a. node_view (h ! a)) (dropWhile (\<lambda>a. precedes (h ! a) e) L)"
    unfolding V by (simp add: dropWhile_map c)
  show ?thesis
  proof (cases "dropWhile (\<lambda>a. precedes (h ! a) e) L")
    case Nil
    show ?thesis unfolding upsert_def t d Nil by (simp add: Let_def)
  next
    case (Cons x R)
    show ?thesis unfolding upsert_def t d Cons by (simp add: Let_def node_view_def)
  qed
qed

lemma insertScore_miss:
  assumes "search_levels (nodes sl) e (level sl) (header sl) (replicate (maxLevel sl + 1) None)
             = Some (c, upd)"
    and "\<not> (case fwd (nodes sl) c 0 of None \<Rightarrow> False
            | Some x \<Rightarrow> SkipListNode.user_id (nodes sl ! x) = IScoreDetails.user_id e)"
    and "connect_levels
           (if randomLevel rnd sl > level sl
            then fill_header (header sl) (level sl + 1) (randomLevel rnd sl - level sl) upd
            else upd)
           (length (nodes sl)) 0 (randomLevel rnd sl + 1)
           (nodes sl @ [SkipListNode_new (IScoreDetails.user_id e) (IScoreDetails.game_id e)
                          (IScoreDetails.score e) (randomLevel rnd sl)]) = Some g'"
  shows "insertScore rnd e sl =
     Some (sl\<lparr>nodes := g',
               level := (if randomLevel rnd sl > level sl then randomLevel rnd sl else level sl)\<rparr>)"
  by (simp only: insertScore_def Let_def assms option.case prod.case if_False)

text \<open>\<^verbatim>\<open>insertScore\<close> returns, and implements \<open>upsert\<close> on the level-0 sequence.\<close>

lemma insertScore_represents:
  assumes rep: "represents sl V" and e: "is_int (IScoreDetails.score e)"
  shows "\<exists>sl'. insertScore rnd e sl = Some sl' \<and> represents sl' (upsert e V)"
proof -
  let ?h = "nodes sl"
  let ?P = "\<lambda>a. precedes (?h ! a) e"
  from rep obtain L where inv: "skiplist_inv sl L" and V: "V = map (\<lambda>a. node_view (?h ! a)) L"
    unfolding represents_def by blast
  define L1 where "L1 = takeWhile ?P L"
  define L2 where "L2 = dropWhile ?P L"
  note sr = search_result [OF inv e L1_def L2_def]
  from sr(1) obtain upd where
    s: "search_levels ?h e (level sl) (header sl) (replicate (maxLevel sl + 1) None)
          = Some (last (header sl # L1), upd)"
    and ulen: "length upd = maxLevel sl + 1"
    and uval: "\<forall>j \<le> level sl. upd ! j = Some (last (filter (tall ?h j) (header sl # L1)))"
    by blast
  note nx = sr(2)
  note uv = upsert_view [OF V L1_def, folded L2_def]
  show ?thesis
  proof (cases "case L2 of [] \<Rightarrow> False
                | x # R \<Rightarrow> SkipListNode.user_id (?h ! x) = IScoreDetails.user_id e")
    case True
    then obtain x R where L2x: "L2 = x # R"
      and uid: "SkipListNode.user_id (?h ! x) = IScoreDetails.user_id e"
      by (cases L2) auto
    let ?h' = "?h[x := (?h ! x)\<lparr>SkipListNode.score := IScoreDetails.score e\<rparr>]"
    note ow = overwrite_inv [OF inv e L1_def L2x [unfolded L2_def] uid]
    have "insertScore rnd e sl = Some (sl\<lparr>nodes := ?h'\<rparr>)"
      unfolding insertScore_def s using nx L2x uid by (simp add: Let_def)
    moreover have "represents (sl\<lparr>nodes := ?h'\<rparr>) (upsert e V)"
      unfolding represents_def uv L2x using ow uid by auto
    ultimately show ?thesis by blast
  next
    case False
    then have miss: "case L2 of [] \<Rightarrow> True
               | x # xs \<Rightarrow> SkipListNode.user_id (?h ! x) \<noteq> IScoreDetails.user_id e"
      by (cases L2) auto
    define nl where "nl = randomLevel rnd sl"
    have nlm: "nl \<le> maxLevel sl" unfolding nl_def by (rule randomLevel_le)
    define upd' where "upd' = (if nl > level sl
         then fill_header (header sl) (level sl + 1) (nl - level sl) upd else upd)"
    define n where "n = length ?h"
    define g0 where "g0 = ?h @ [SkipListNode_new (IScoreDetails.user_id e) (IScoreDetails.game_id e)
                               (IScoreDetails.score e) nl]"
    define lv' where "lv' = (if nl > level sl then nl else level sl)"
    from insert_inv [OF inv e L1_def L2_def miss ulen uval nlm upd'_def n_def g0_def lv'_def]
    obtain g' where c: "connect_levels upd' n 0 (nl + 1) g0 = Some g'"
      and inv': "skiplist_inv (sl\<lparr>nodes := g', level := lv'\<rparr>) (L1 @ n # L2)"
      and v: "map (\<lambda>a. node_view (g' ! a)) (L1 @ n # L2) =
             map (\<lambda>a. node_view (?h ! a)) L1 @
             (IScoreDetails.user_id e, IScoreDetails.score e, IScoreDetails.game_id e) #
             map (\<lambda>a. node_view (?h ! a)) L2"
      by blast
    have found: "\<not> (case fwd ?h (last (header sl # L1)) 0 of None \<Rightarrow> False
               | Some x \<Rightarrow> SkipListNode.user_id (?h ! x) = IScoreDetails.user_id e)"
      unfolding nx using miss by (cases L2) auto
    have "insertScore rnd e sl = Some (sl\<lparr>nodes := g', level := lv'\<rparr>)"
      unfolding lv'_def nl_def
      by (rule insertScore_miss [OF s found c [unfolded upd'_def n_def g0_def nl_def]])
    moreover have "upsert e V = map (\<lambda>a. node_view (g' ! a)) (L1 @ n # L2)"
      unfolding uv v using miss by (cases L2) auto
    then have "represents (sl\<lparr>nodes := g', level := lv'\<rparr>) (upsert e V)"
      unfolding represents_def using inv' by auto
    ultimately show ?thesis by blast
  qed
qed

lemma SkipList_new_represents: "represents SkipList_new []"
proof -
  let ?h = "nodes SkipList_new"
  have t: "tall ?h i 0" if "i \<le> 20" for i
    using that by (simp add: tall_def SkipList_new_def SkipListNode_new_def)
  have "seg ?h i (Some 0) [0] None" if "i \<le> 20" for i
    using that by (simp add: valid_def fwd_def SkipList_new_def SkipListNode_new_def)
  with t have "\<forall>i \<le> 20. seg ?h i (Some 0) (filter (tall ?h i) [0]) None" by simp
  then have "skiplist_inv SkipList_new []"
    unfolding skiplist_inv_def
    by (simp add: SkipList_new_def SkipListNode_new_def)
  then show ?thesis unfolding represents_def by simp
qed

lemma represents_sorted:
  assumes "represents sl V"
  shows "sorted_wrt view_before V"
proof -
  from assms obtain L where inv: "skiplist_inv sl L"
    and V: "V = map (\<lambda>a. node_view (nodes sl ! a)) L"
    unfolding represents_def by blast
  from inv have "sorted_wrt (\<lambda>a b. node_before (nodes sl ! a) (nodes sl ! b)) L"
    unfolding skiplist_inv_def by blast
  then show ?thesis
    unfolding V sorted_wrt_map
    by (simp add: view_before_def node_before_def node_view_def)
qed

lemma getTopK_loop_chain:
  assumes "seg h 0 p as None"
  shows "getTopK_loop h k p r acc =
           Some (acc @ take (nat (k - int (length acc)))
                          (rank_rows r (map (\<lambda>a. node_view (h ! a)) as)))"
  using assms
proof (induction as arbitrary: p r acc)
  case Nil
  then show ?case by (subst getTopK_loop.simps) simp
next
  case (Cons a as)
  from Cons.prems have p: "p = Some a" and rest: "seg h 0 (fwd h a 0) as None" by auto
  let ?row = "\<lparr>ILeaderboard.user_id = SkipListNode.user_id (h ! a),
               score = SkipListNode.score (h ! a), rank = r,
               game_id = SkipListNode.game_id (h ! a)\<rparr>"
  show ?case
  proof (cases "int (length acc) < k")
    case True
    then have n: "nat (k - int (length acc)) = Suc (nat (k - int (length (acc @ [?row]))))"
      by simp
    have "getTopK_loop h k p r acc = getTopK_loop h k (fwd h a 0) (r + 1) (acc @ [?row])"
      by (subst getTopK_loop.simps) (simp add: p True)
    also have "\<dots> = Some ((acc @ [?row]) @ take (nat (k - int (length (acc @ [?row]))))
                          (rank_rows (r + 1) (map (\<lambda>a. node_view (h ! a)) as)))"
      by (rule Cons.IH [OF rest])
    finally show ?thesis unfolding n by (simp add: node_view_def)
  next
    case False
    then have "getTopK_loop h k p r acc = Some acc"
      by (subst getTopK_loop.simps) (simp add: p)
    with False show ?thesis by simp
  qed
qed

lemma getTopK_represents:
  assumes "represents sl V"
  shows "getTopK sl k = Some (take (nat k) (rank_rows 1 V))"
proof -
  let ?h = "nodes sl" and ?H = "header sl"
  from assms obtain L where inv: "skiplist_inv sl L"
    and V: "V = map (\<lambda>a. node_view (?h ! a)) L"
    unfolding represents_def by blast
  have Ht: "tall ?h 0 ?H" using inv unfolding skiplist_inv_def tall_def by simp
  have "\<forall>a \<in> set L. tall ?h 0 a" using inv unfolding skiplist_inv_def by blast
  with Ht have "\<forall>a \<in> set (?H # L). tall ?h 0 a" by simp
  then have "filter (tall ?h 0) (?H # L) = ?H # L" by (rule filter_tall0)
  moreover have "seg ?h 0 (Some ?H) (filter (tall ?h 0) (?H # L)) None"
    using inv unfolding skiplist_inv_def by blast
  ultimately have "seg ?h 0 (Some ?H) (?H # L) None" by (simp only:)
  then have "seg ?h 0 (fwd ?h ?H 0) L None" by simp
  from getTopK_loop_chain [OF this, of k 1 "[]"] show ?thesis
    unfolding getTopK_def V by simp
qed

lemma rank_rows_keys:
  "row \<in> set (rank_rows r V) \<Longrightarrow>
   \<exists>v \<in> set V. ILeaderboard.user_id row = fst v \<and> ILeaderboard.score row = fst (snd v)"
  by (induction V arbitrary: r) auto

lemma rank_rows_sorted:
  "sorted_wrt view_before V \<Longrightarrow> sorted_wrt row_before (rank_rows r V)"
proof (induction V arbitrary: r)
  case Nil
  show ?case by simp
next
  case (Cons v V)
  have "row_before \<lparr>ILeaderboard.user_id = fst v, score = fst (snd v), rank = r,
                    game_id = snd (snd v)\<rparr> row"
    if "row \<in> set (rank_rows (r + 1) V)" for row
  proof -
    from rank_rows_keys [OF that] obtain v' where "v' \<in> set V"
      "ILeaderboard.user_id row = fst v'" "ILeaderboard.score row = fst (snd v')" by blast
    moreover with Cons.prems have "view_before v v'" by simp
    ultimately show ?thesis by (simp add: row_before_def view_before_def)
  qed
  moreover from Cons have "sorted_wrt row_before (rank_rows (r + 1) V)" by simp
  ultimately show ?case by simp
qed

lemma sorted_wrt_take: "sorted_wrt R xs \<Longrightarrow> sorted_wrt R (take n xs)"
proof -
  assume s: "sorted_wrt R xs"
  have "xs = take n xs @ drop n xs" by simp
  with s have "sorted_wrt R (take n xs @ drop n xs)" by simp
  then show ?thesis unfolding sorted_wrt_append by blast
qed

text \<open>A sequence of insertions, as far as the level-0 sequence goes.\<close>

lemma insert_all_represents:
  assumes "represents sl V" "\<forall>e \<in> set entries. is_int (IScoreDetails.score e)"
  shows "\<exists>sl'. insert_all rnds k entries sl = Some sl' \<and>
           represents sl' (foldl (\<lambda>V e. upsert e V) V entries)"
  using assms
proof (induction entries arbitrary: sl V k)
  case Nil
  then show ?case by simp
next
  case (Cons e entries)
  from Cons.prems have e: "is_int (IScoreDetails.score e)" by simp
  from insertScore_represents [OF Cons.prems(1) e, of "rnds k"]
  obtain sl1 where s1: "insertScore (rnds k) e sl = Some sl1" "represents sl1 (upsert e V)"
    by blast
  from Cons.prems have "\<forall>e \<in> set entries. is_int (IScoreDetails.score e)" by simp
  from Cons.IH [OF s1(2) this, of "Suc k"] s1(1) show ?case by simp
qed

lemma tie_break_upsert:
  "foldl (\<lambda>V e. upsert e V) [] [entry_b5 gb tb, entry_a5 ga ta] =
     [(''a'', Num 5, ga), (''b'', Num 5, gb)]"
  by (simp add: upsert_def entry_b5_def entry_a5_def row_precedes_def)

text \<open>
  C6 (as amended): for every sequence of insertions of entries with integer scores into a
  new skip list, whatever the random levels, \<^verbatim>\<open>insertScore\<close> and \<^verbatim>\<open>getTopK(k)\<close> return, and the rows
  are in ranking order: every row has a higher score than each later row, or the same
  score and a smaller user id. After the insertion of \<open>(b, 5)\<close> and then \<open>(a, 5)\<close>,
  \<^verbatim>\<open>getTopK(2)\<close> is \<open>[(a, 5, 1), (b, 5, 2)]\<close>.
\<close>

theorem C6_topK_ranking_order:
  assumes "\<forall>e \<in> set entries. is_int (IScoreDetails.score e)"
  shows "(\<exists>sl rows. insert_all rnds 0 entries SkipList_new = Some sl \<and>
            getTopK sl k = Some rows \<and> ranking_order rows) \<and>
         (\<exists>sl. insert_all rnds' 0 [entry_b5 gb tb, entry_a5 ga ta] SkipList_new = Some sl \<and>
            getTopK sl 2 =
              Some [\<lparr>ILeaderboard.user_id = ''a'', score = Num 5, rank = 1, game_id = ga\<rparr>,
                    \<lparr>ILeaderboard.user_id = ''b'', score = Num 5, rank = 2, game_id = gb\<rparr>])"
proof
  from insert_all_represents [OF SkipList_new_represents assms, of rnds 0]
  obtain sl where sl: "insert_all rnds 0 entries SkipList_new = Some sl"
    "represents sl (foldl (\<lambda>V e. upsert e V) [] entries)"
    by blast
  let ?V = "foldl (\<lambda>V e. upsert e V) [] entries"
  have "getTopK sl k = Some (take (nat k) (rank_rows 1 ?V))"
    using sl(2) by (rule getTopK_represents)
  moreover have "ranking_order (take (nat k) (rank_rows 1 ?V))"
    unfolding ranking_order_def
    by (intro sorted_wrt_take rank_rows_sorted represents_sorted [OF sl(2)])
  ultimately show "\<exists>sl rows. insert_all rnds 0 entries SkipList_new = Some sl \<and>
            getTopK sl k = Some rows \<and> ranking_order rows"
    using sl(1) by blast
next
  have "\<forall>e \<in> set [entry_b5 gb tb, entry_a5 ga ta]. is_int (IScoreDetails.score e)"
    by (simp add: entry_b5_def entry_a5_def is_int_def)
  from insert_all_represents [OF SkipList_new_represents this, of rnds' 0]
  obtain sl where sl: "insert_all rnds' 0 [entry_b5 gb tb, entry_a5 ga ta] SkipList_new = Some sl"
    "represents sl [(''a'', Num 5, ga), (''b'', Num 5, gb)]"
    unfolding tie_break_upsert by blast
  have "getTopK sl 2 = Some (take (nat 2) (rank_rows 1 [(''a'', Num 5, ga), (''b'', Num 5, gb)]))"
    using sl(2) by (rule getTopK_represents)
  then have "getTopK sl 2 =
              Some [\<lparr>ILeaderboard.user_id = ''a'', score = Num 5, rank = 1, game_id = ga\<rparr>,
                    \<lparr>ILeaderboard.user_id = ''b'', score = Num 5, rank = 2, game_id = gb\<rparr>]"
    by simp
  with sl(1) show "\<exists>sl. insert_all rnds' 0 [entry_b5 gb tb, entry_a5 ga ta] SkipList_new = Some sl \<and>
            getTopK sl 2 =
              Some [\<lparr>ILeaderboard.user_id = ''a'', score = Num 5, rank = 1, game_id = ga\<rparr>,
                    \<lparr>ILeaderboard.user_id = ''b'', score = Num 5, rank = 2, game_id = gb\<rparr>]"
    by blast
qed

theorem C6_topK_ranking_order_witness:
  "is_int (IScoreDetails.score entry_u1_10) \<and> is_int (IScoreDetails.score entry_u1_5) \<and>
   (\<exists>sl rows. insert_all (\<lambda>k. no_promotion) 0 [entry_u1_10, entry_u1_5] SkipList_new = Some sl \<and>
      getTopK sl 2 = Some rows \<and> ranking_order rows)"
proof -
  have h: "\<forall>e \<in> set [entry_u1_10, entry_u1_5]. is_int (IScoreDetails.score e)"
    by (simp add: entry_u1_10_def entry_u1_5_def is_int_def)
  from C6_topK_ranking_order [OF h, of "\<lambda>k. no_promotion" 2] h show ?thesis by simp
qed

text \<open>
  C6 as stated fails: after the insertion of \<open>(u1, 10)\<close>, \<open>(u2, NaN)\<close> and \<open>(u3, 20)\<close>,
  \<^verbatim>\<open>getTopK(3)\<close> returns the scores 20, \<^verbatim>\<open>NaN\<close>, 10, which is not in ranking order: every
  comparison with \<^verbatim>\<open>NaN\<close> is false, so the search stops at the header.
\<close>

theorem C6_nan_score_counterexample:
  "map_option (\<lambda>sl. getTopK sl 3)
     (insert_all (\<lambda>k. no_promotion) 0 [entry_u1_10, entry_u2_nan, entry_u3_20] SkipList_new) =
     Some (Some [\<lparr>ILeaderboard.user_id = ''u3'', score = Num 20, rank = 1, game_id = Some ''g1''\<rparr>,
                 \<lparr>ILeaderboard.user_id = ''u2'', score = NaN, rank = 2, game_id = Some ''g1''\<rparr>,
                 \<lparr>ILeaderboard.user_id = ''u1'', score = Num 10, rank = 3, game_id = Some ''g1''\<rparr>]) \<and>
   \<not> ranking_order
         [\<lparr>ILeaderboard.user_id = ''u3'', score = Num 20, rank = 1, game_id = Some ''g1''\<rparr>,
          \<lparr>ILeaderboard.user_id = ''u2'', score = NaN, rank = 2, game_id = Some ''g1''\<rparr>,
          \<lparr>ILeaderboard.user_id = ''u1'', score = Num 10, rank = 3, game_id = Some ''g1''\<rparr>]"
  by code_simp

lemma rank_rows_length: "length (rank_rows r V) = length V"
  by (induction V arbitrary: r) auto

lemma rank_rows_nth: "i < length V \<Longrightarrow> rank (rank_rows r V ! i) = r + int i"
proof (induction V arbitrary: r i)
  case Nil
  then show ?case by simp
next
  case (Cons v V)
  show ?case
  proof (cases i)
    case 0
    then show ?thesis by simp
  next
    case (Suc j)
    with Cons.prems have "j < length V" by simp
    from Cons.IH [OF this, of "r + 1"] Suc show ?thesis by simp
  qed
qed

text \<open>
  The ranks of the rows that \<^verbatim>\<open>getTopK\<close> returns count from 1 without gaps, also when a
  user has several nodes.
\<close>

lemma getTopK_ranks:
  assumes "\<forall>e \<in> set entries. is_int (IScoreDetails.score e)"
    and "insert_all rnds 0 entries SkipList_new = Some sl"
    and "getTopK sl k = Some rows" and "i < length rows"
  shows "rank (rows ! i) = int i + 1"
proof -
  from insert_all_represents [OF SkipList_new_represents assms(1), of rnds 0] assms(2)
  obtain V where "represents sl V" by auto
  then have "getTopK sl k = Some (take (nat k) (rank_rows 1 V))" by (rule getTopK_represents)
  with assms(3) have rows: "rows = take (nat k) (rank_rows 1 V)" by simp
  with assms(4) have "i < length V" "i < nat k" by (simp_all add: rank_rows_length)
  then show ?thesis unfolding rows by (simp add: rank_rows_nth)
qed

subsection \<open>Writing and reading records\<close>

lemma digit_val_digit_char: "d < 10 \<Longrightarrow> digit_val (digit_char d) = Some d"
  by (simp add: digit_val_def digit_char_def Let_def)

lemma is_digit_digit_char: "d < 10 \<Longrightarrow> is_digit 10 (digit_char d)"
  by (simp add: is_digit_def digit_val_digit_char)

lemma digits_all: "\<forall>c \<in> set (digits n). is_digit 10 c"
proof (induction n rule: digits.induct)
  case (1 n)
  show ?case
  proof (cases "n < 10")
    case True
    then show ?thesis by (subst digits.simps) (simp add: is_digit_digit_char)
  next
    case False
    with 1 show ?thesis by (subst digits.simps) (simp add: is_digit_digit_char)
  qed
qed

lemma digits_nonempty: "digits n \<noteq> []"
  by (subst digits.simps) simp

lemma digits_value_snoc:
  "digits_value r (xs @ [c]) = digits_value r xs * r + the (digit_val c)"
  by (simp add: digits_value_def)

lemma digits_value_digits: "digits_value 10 (digits n) = n"
proof (induction n rule: digits.induct)
  case (1 n)
  show ?case
  proof (cases "n < 10")
    case True
    then show ?thesis
      by (subst digits.simps) (simp add: digits_value_def digit_val_digit_char)
  next
    case False
    with 1 have "digits_value 10 (digits (n div 10)) = n div 10" by simp
    with False show ?thesis
      by (subst digits.simps) (simp add: digits_value_snoc digit_val_digit_char)
  qed
qed

lemma is_digit_chars:
  assumes "is_digit 10 c"
  shows "\<not> is_space c" "c \<noteq> CHR '',''" "c \<noteq> CHR ''-''" "c \<noteq> CHR ''+''" "c \<noteq> CHR ''x''"
    "c \<noteq> CHR ''X''" "c \<noteq> CHR 0x0A"
  using assms
  by (auto simp: is_digit_def digit_val_def is_space_def Let_def split: if_splits)

lemma parse_unsigned_digits: "parse_unsigned (digits n) = Some (int n)"
proof -
  have all: "\<forall>c \<in> set (digits n). is_digit 10 c" by (rule digits_all)
  have "take 2 (digits n) \<noteq> ''0x''"
  proof
    assume "take 2 (digits n) = ''0x''"
    then have "CHR ''x'' \<in> set (take 2 (digits n))" by simp
    then have "CHR ''x'' \<in> set (digits n)" by (rule in_set_takeD)
    with all is_digit_chars(5) show False by blast
  qed
  moreover have "take 2 (digits n) \<noteq> ''0X''"
  proof
    assume "take 2 (digits n) = ''0X''"
    then have "CHR ''X'' \<in> set (take 2 (digits n))" by simp
    then have "CHR ''X'' \<in> set (digits n)" by (rule in_set_takeD)
    with all is_digit_chars(6) show False by blast
  qed
  moreover have tw: "takeWhile (is_digit 10) (digits n) = digits n"
    using all by (simp add: takeWhile_eq_all_conv)
  have "parse_digits 10 (digits n) = Some (int n)"
    unfolding parse_digits_def tw by (simp add: digits_nonempty digits_value_digits)
  ultimately show ?thesis
    by (simp add: parse_unsigned_def)
qed

lemma hd_digits: "is_digit 10 (hd (digits n))"
  using digits_all [of n] digits_nonempty [of n] by (cases "digits n") auto

lemma parseInt_Number_toString:
  "parseInt (Some (CHR '' '' # Number_toString (Num n))) = Num n"
proof (cases "n < 0")
  case True
  have "\<not> is_space CHR ''-''" by (simp add: is_space_def)
  then have "dropWhile is_space (CHR '' '' # CHR ''-'' # digits (nat (- n))) = CHR ''-'' # digits (nat (- n))"
    by (simp add: is_space_def)
  with True show ?thesis
    by (simp add: parseInt_def String_of_def Let_def parse_unsigned_digits)
next
  case False
  obtain c cs where d: "digits (nat n) = c # cs" using digits_nonempty [of "nat n"] by (cases "digits (nat n)") auto
  with hd_digits [of "nat n"] have c: "is_digit 10 c" by simp
  have dw: "dropWhile is_space (CHR '' '' # digits (nat n)) = digits (nat n)"
    using is_digit_chars(1) [OF c] by (simp add: d is_space_def)
  have "take 1 (digits (nat n)) \<noteq> ''-''" "take 1 (digits (nat n)) \<noteq> ''+''"
    using is_digit_chars(3,4) [OF c] by (simp_all add: d)
  with False dw show ?thesis
    by (simp add: parseInt_def String_of_def Let_def parse_unsigned_digits)
qed

lemma split_nonempty: "split sep s \<noteq> []"
  by (induction s) (auto simp: Let_def)

lemma split_no_sep: "sep \<notin> set l \<Longrightarrow> split sep l = [l]"
  by (induction l) (auto simp: Let_def)

lemma split_at_sep: "sep \<notin> set l \<Longrightarrow> split sep (l @ sep # rest) = l # split sep rest"
  by (induction l) (auto simp: Let_def)

lemma logLine_core: "logLine tz e = line_core e @ CHR '' '' # Date_toString tz (ctime e) @ [CHR 0x0A]"
  by (simp add: logLine_def line_core_def)

lemma Number_toString_chars:
  assumes "is_int x"
  shows "CHR '','' \<notin> set (Number_toString x)" "CHR 0x0A \<notin> set (Number_toString x)"
proof -
  from assms obtain n where x: "x = Num n" by (blast dest: is_int_Num)
  have "c \<noteq> CHR '',''" "c \<noteq> CHR 0x0A" if "c \<in> set (digits m)" for c m
    using that digits_all [of m] is_digit_chars(2,7) by blast+
  then show "CHR '','' \<notin> set (Number_toString x)" "CHR 0x0A \<notin> set (Number_toString x)"
    unfolding x by auto
qed

lemma safe_score_is_int: "safe_score x \<Longrightarrow> is_int x"
  by (cases x) (simp_all add: safe_score_def is_int_def)

lemma wal_safe_is_int: "wal_safe tz e \<Longrightarrow> is_int (IScoreDetails.score e)"
  by (simp add: wal_safe_def safe_score_is_int)

lemma line_core_no_newline:
  "wal_safe tz e \<Longrightarrow> CHR 0x0A \<notin> set (line_core e)"
  using Number_toString_chars(2) [OF wal_safe_is_int, of tz e]
  by (simp add: wal_safe_def line_core_def)

text \<open>Reading a line that starts with the core of a record.\<close>

lemma parse_line_core:
  assumes "wal_safe tz e"
  shows "IScoreDetails.user_id (parse_line (line_core e @ x)) = IScoreDetails.user_id e"
    and "IScoreDetails.score (parse_line (line_core e @ x)) = IScoreDetails.score e"
proof -
  let ?u = "IScoreDetails.user_id e" and ?g = "String_of (IScoreDetails.game_id e)"
  let ?n = "Number_toString (IScoreDetails.score e)"
  from wal_safe_is_int [OF assms] obtain n where n: "IScoreDetails.score e = Num n"
    by (blast dest: is_int_Num)
  have cu: "CHR '','' \<notin> set ?u" and cg: "CHR '','' \<notin> set (CHR '' '' # ?g)"
    using assms by (simp_all add: wal_safe_def)
  have cn: "CHR '','' \<notin> set (CHR '' '' # ?n)"
    using Number_toString_chars(1) [OF wal_safe_is_int [OF assms]] by simp
  have "line_core e @ x = ?u @ CHR '','' # ((CHR '' '' # ?g) @ CHR '','' # ((CHR '' '' # ?n) @ CHR '','' # x))"
    by (simp add: line_core_def)
  then have "split CHR '','' (line_core e @ x) =
      ?u # (CHR '' '' # ?g) # (CHR '' '' # ?n) # split CHR '','' x"
    by (simp only: split_at_sep [OF cu] split_at_sep [OF cg] split_at_sep [OF cn])
  then show "IScoreDetails.user_id (parse_line (line_core e @ x)) = IScoreDetails.user_id e"
    and "IScoreDetails.score (parse_line (line_core e @ x)) = IScoreDetails.score e"
    by (simp_all add: parse_line_def Let_def field_def n parseInt_Number_toString
          del: Number_toString.simps)
qed

lemma dropWhile_keeps: "\<not> P x \<Longrightarrow> x \<in> set l \<Longrightarrow> x \<in> set (dropWhile P l)"
  by (induction l) auto

lemma trim_nonempty:
  assumes "x \<in> set l" "\<not> is_space x"
  shows "trim l \<noteq> []"
proof -
  from assms have "x \<in> set (dropWhile is_space l)" by (intro dropWhile_keeps)
  then have "x \<in> set (rev (dropWhile is_space l))" by simp
  with assms(2) have "x \<in> set (dropWhile is_space (rev (dropWhile is_space l)))"
    by (intro dropWhile_keeps)
  then have "dropWhile is_space (rev (dropWhile is_space l)) \<noteq> []"
    by (cases "dropWhile is_space (rev (dropWhile is_space l))") simp_all
  then show ?thesis unfolding trim_def by simp
qed

lemma comma_not_space: "\<not> is_space CHR '',''"
  by (simp add: is_space_def)

lemma line_core_trim: "trim (line_core e @ x) \<noteq> []"
  by (rule trim_nonempty [of "CHR '',''"]) (simp_all add: line_core_def comma_not_space)

lemma rtrim_after:
  assumes "a \<noteq> []" "\<not> is_space (last a)"
  shows "rev (dropWhile is_space (rev (a @ b))) = a @ rev (dropWhile is_space (rev b))"
proof -
  from assms have "dropWhile is_space (rev a) = rev a"
    by (cases "rev a") (auto simp: last_rev [symmetric] hd_rev)
  then show ?thesis
    by (simp add: dropWhile_append)
qed

lemma append_all_ok:
  assumes "writeQueue w = None"
  shows "append_all tz (map (Pair None) es) (w, fs) =
     (replicate (length es) (Inr ()), w,
      if es = [] then fs
      else fs(walPath w \<mapsto> (case fs (walPath w) of None \<Rightarrow> [] | Some c \<Rightarrow> c) @
                               concat (map (logLine tz) es)))"
proof (induction es arbitrary: fs)
  case Nil
  show ?case by simp
next
  case (Cons e es)
  let ?old = "case fs (walPath w) of None \<Rightarrow> [] | Some c \<Rightarrow> c"
  let ?fs1 = "fs(walPath w \<mapsto> ?old @ logLine tz e)"
  have a: "WriteAheadLog_append tz None e (w, fs) = (Inr (), w, ?fs1)"
    using assms by (simp add: WriteAheadLog_append_def appendFile_def split: option.split)
  show ?case
  proof (cases "es = []")
    case True
    then show ?thesis by (simp add: a fun_eq_iff)
  next
    case False
    then show ?thesis by (simp add: a Cons.IH [of ?fs1] fun_eq_iff)
  qed
qed

lemma logLine_hd:
  assumes "wal_safe tz e"
  shows "logLine tz e \<noteq> []" "\<not> is_space (hd (logLine tz e))"
proof -
  show "logLine tz e \<noteq> []" by (simp add: logLine_def)
  show "\<not> is_space (hd (logLine tz e))"
  proof (cases "IScoreDetails.user_id e")
    case Nil
    then show ?thesis by (simp add: logLine_def comma_not_space)
  next
    case (Cons c cs)
    with assms show ?thesis by (simp add: logLine_def wal_safe_def)
  qed
qed

lemma line_core_last: "line_core e \<noteq> []" "last (line_core e) = CHR '',''"
  by (simp_all add: line_core_def)

text \<open>The contents of a log after trimming: only the end of the last record changes.\<close>

lemma trim_content:
  assumes "\<forall>e \<in> set (es @ [ek]). wal_safe tz e"
  shows "trim (concat (map (logLine tz) (es @ [ek]))) =
     concat (map (logLine tz) es) @ line_core ek @
     rev (dropWhile is_space (rev (CHR '' '' # Date_toString tz (ctime ek) @ [CHR 0x0A])))"
proof -
  let ?c = "concat (map (logLine tz) (es @ [ek]))"
  let ?a = "concat (map (logLine tz) es) @ line_core ek"
  let ?b = "CHR '' '' # Date_toString tz (ctime ek) @ [CHR 0x0A]"
  have c: "?c = ?a @ ?b" by (simp add: logLine_core)
  obtain e1 rest where e1: "es @ [ek] = e1 # rest" by (cases es) auto
  with assms have s1: "wal_safe tz e1" by (metis list.set_intros(1))
  have "?c = logLine tz e1 @ concat (map (logLine tz) rest)" unfolding e1 by simp
  with logLine_hd [OF s1] have "?c \<noteq> []" "\<not> is_space (hd ?c)" by simp_all
  then have front: "dropWhile is_space ?c = ?c" by (cases ?c) simp_all
  have "?a \<noteq> []" using line_core_last(1) by simp
  moreover have "\<not> is_space (last ?a)"
    using line_core_last [of ek] by (simp add: comma_not_space)
  ultimately have "rev (dropWhile is_space (rev (?a @ ?b))) = ?a @ rev (dropWhile is_space (rev ?b))"
    by (rule rtrim_after)
  then show ?thesis unfolding trim_def front unfolding c by simp
qed

lemma rtrim_no_newline:
  assumes "CHR 0x0A \<notin> set x"
  shows "CHR 0x0A \<notin> set (rev (dropWhile is_space (rev (x @ [CHR 0x0A]))))"
proof -
  have "is_space (CHR 0x0A)" by (simp add: is_space_def)
  then have "dropWhile is_space (rev (x @ [CHR 0x0A])) = dropWhile is_space (rev x)" by simp
  moreover have "set (dropWhile is_space (rev x)) \<subseteq> set x"
    using set_dropWhileD [of _ is_space "rev x"] by auto
  ultimately show ?thesis using assms by auto
qed

lemma split_lines:
  assumes "\<forall>e \<in> set es. wal_safe tz e" "CHR 0x0A \<notin> set c"
  shows "split (CHR 0x0A) (concat (map (logLine tz) es) @ c) =
     map (\<lambda>e. line_core e @ CHR '' '' # Date_toString tz (ctime e)) es @ [c]"
  using assms(1)
proof (induction es)
  case Nil
  from assms(2) show ?case by (simp add: split_no_sep)
next
  case (Cons e es)
  let ?l = "line_core e @ CHR '' '' # Date_toString tz (ctime e)"
  from Cons.prems have s: "wal_safe tz e" by simp
  then have nl: "CHR 0x0A \<notin> set ?l"
    using line_core_no_newline [OF s] by (simp add: wal_safe_def)
  have "concat (map (logLine tz) (e # es)) @ c = ?l @ CHR 0x0A # (concat (map (logLine tz) es) @ c)"
    by (simp add: logLine_core)
  then have "split (CHR 0x0A) (concat (map (logLine tz) (e # es)) @ c) =
      ?l # split (CHR 0x0A) (concat (map (logLine tz) es) @ c)"
    by (simp only: split_at_sep [OF nl])
  with Cons show ?case by simp
qed

lemma recover_lines:
  assumes "\<forall>e \<in> set es. wal_safe tz e"
  shows "map (\<lambda>e. (IScoreDetails.user_id e, IScoreDetails.score e))
           (concat (map (\<lambda>line. if trim line \<noteq> [] then [parse_line line] else [])
                        (map (\<lambda>e. line_core e @ X e) es))) =
         map (\<lambda>e. (IScoreDetails.user_id e, IScoreDetails.score e)) es"
  using assms
proof (induction es)
  case Nil
  show ?case by simp
next
  case (Cons e es)
  from Cons.prems have s: "wal_safe tz e" by simp
  from Cons have "map (\<lambda>e. (IScoreDetails.user_id e, IScoreDetails.score e))
           (concat (map (\<lambda>line. if trim line \<noteq> [] then [parse_line line] else [])
                        (map (\<lambda>e. line_core e @ X e) es))) =
         map (\<lambda>e. (IScoreDetails.user_id e, IScoreDetails.score e)) es" by simp
  then show ?case
    by (simp add: line_core_trim parse_line_core [OF s])
qed

text \<open>Reading back a log that holds the records of a sequence of entries.\<close>

lemma recover_appended:
  assumes safe: "\<forall>e \<in> set es. wal_safe tz e" and ne: "es \<noteq> []"
    and content: "fs (walPath w) = Some (concat (map (logLine tz) es))"
  shows "map (\<lambda>e. (IScoreDetails.user_id e, IScoreDetails.score e)) (WriteAheadLog_recover None w fs) =
         map (\<lambda>e. (IScoreDetails.user_id e, IScoreDetails.score e)) es"
proof -
  let ?kv = "\<lambda>e. (IScoreDetails.user_id e, IScoreDetails.score e)"
  let ?f = "\<lambda>line. if trim line \<noteq> [] then [parse_line line] else []"
  from ne obtain es' ek where es: "es = es' @ [ek]" by (cases es rule: rev_cases) auto
  let ?r = "rev (dropWhile is_space (rev (CHR '' '' # Date_toString tz (ctime ek) @ [CHR 0x0A])))"
  from safe have s': "\<forall>e \<in> set es'. wal_safe tz e" and sk: "wal_safe tz ek"
    unfolding es by simp_all
  have t: "trim (concat (map (logLine tz) es)) = concat (map (logLine tz) es') @ line_core ek @ ?r"
    unfolding es using safe [unfolded es] by (rule trim_content)
  have "CHR 0x0A \<notin> set (CHR '' '' # Date_toString tz (ctime ek))"
    using sk by (simp add: wal_safe_def)
  then have "CHR 0x0A \<notin> set (rev (dropWhile is_space
      (rev ((CHR '' '' # Date_toString tz (ctime ek)) @ [CHR 0x0A]))))"
    by (rule rtrim_no_newline)
  then have "CHR 0x0A \<notin> set ?r" by simp
  with line_core_no_newline [OF sk] have nl: "CHR 0x0A \<notin> set (line_core ek @ ?r)" by simp
  have lines: "split (CHR 0x0A) (trim (concat (map (logLine tz) es))) =
      map (\<lambda>e. line_core e @ CHR '' '' # Date_toString tz (ctime e)) es' @ [line_core ek @ ?r]"
    unfolding t using s' nl by (rule split_lines)
  have rec: "WriteAheadLog_recover None w fs =
      concat (map ?f (map (\<lambda>e. line_core e @ CHR '' '' # Date_toString tz (ctime e)) es')) @
      [parse_line (line_core ek @ ?r)]"
    unfolding WriteAheadLog_recover_def readFile_def
    by (simp add: content lines line_core_trim)
  have "map ?kv (concat (map ?f (map (\<lambda>e. line_core e @ CHR '' '' # Date_toString tz (ctime e)) es')))
        = map ?kv es'"
    using s' by (rule recover_lines)
  moreover have "?kv (parse_line (line_core ek @ ?r)) = ?kv ek"
    using parse_line_core [OF sk] by simp
  ultimately show ?thesis unfolding rec es by simp
qed

text \<open>
  C5 (as amended): for every sequence of entries whose user id and game id hold no comma
  and no line feed, whose user id does not begin with white space and whose score is an
  integer of magnitude below \<open>2 ^ 53\<close>, with a date whose text holds no line feed, appending the entries to the log of
  a game that has no file yet succeeds, and \<^verbatim>\<open>recover\<close> then returns one entry for each,
  in order, with the same user id and the same score.
\<close>

theorem C5_replay_user_id_and_score:
  assumes "\<forall>e \<in> set es. wal_safe tz e"
  shows "case append_all tz (map (Pair None) es) (WriteAheadLog_new gid, Map.empty) of
           (rs, w, fs) \<Rightarrow>
             rs = replicate (length es) (Inr ()) \<and>
             map (\<lambda>e. (IScoreDetails.user_id e, IScoreDetails.score e))
                 (WriteAheadLog_recover None w fs) =
             map (\<lambda>e. (IScoreDetails.user_id e, IScoreDetails.score e)) es"
proof (cases "es = []")
  case True
  then show ?thesis
    by (simp add: WriteAheadLog_recover_def readFile_def)
next
  case False
  let ?w = "WriteAheadLog_new gid"
  let ?fs = "Map.empty(walPath ?w \<mapsto> concat (map (logLine tz) es))"
  have q: "writeQueue ?w = None" by (simp add: WriteAheadLog_new_def)
  have a: "append_all tz (map (Pair None) es) (?w, Map.empty) =
      (replicate (length es) (Inr ()), ?w, ?fs)"
    unfolding append_all_ok [OF q] using False by simp
  have "?fs (walPath ?w) = Some (concat (map (logLine tz) es))" by simp
  with assms False have "map (\<lambda>e. (IScoreDetails.user_id e, IScoreDetails.score e))
                 (WriteAheadLog_recover None ?w ?fs) =
             map (\<lambda>e. (IScoreDetails.user_id e, IScoreDetails.score e)) es"
    by (rule recover_appended)
  then show ?thesis unfolding a by simp
qed

lemma wal_safe_u1: "wal_safe utc entry_u1_10" "wal_safe utc entry_u1_5"
  by (simp_all add: wal_safe_def entry_u1_10_def entry_u1_5_def String_of_def utc_def
        is_space_def safe_score_def)

theorem C5_replay_user_id_and_score_witness:
  "wal_safe utc entry_u1_10 \<and> wal_safe utc entry_u1_5 \<and>
   (case append_all utc [(None, entry_u1_10), (None, entry_u1_5)] (WriteAheadLog_new ''g1'', Map.empty) of
      (rs, w, fs) \<Rightarrow>
        rs = [Inr (), Inr ()] \<and>
        map (\<lambda>e. (IScoreDetails.user_id e, IScoreDetails.score e))
            (WriteAheadLog_recover None w fs) = [(''u1'', Num 10), (''u1'', Num 5)])"
proof -
  have h: "\<forall>e \<in> set [entry_u1_10, entry_u1_5]. wal_safe utc e"
    using wal_safe_u1 by simp
  from C5_replay_user_id_and_score [OF h, of "''g1''"] wal_safe_u1 show ?thesis
    by (simp add: entry_u1_10_def entry_u1_5_def numeral_2_eq_2)
qed

text \<open>
  C5 as stated fails: the entry of user \<open>a,b\<close> with score 10 is read back as user \<open>a\<close>
  with score \<^verbatim>\<open>NaN\<close>.
\<close>

theorem C5_comma_counterexample:
  "(case WriteAheadLog_append utc None entry_comma (WriteAheadLog_new ''g1'', Map.empty) of
      (r, w, fs) \<Rightarrow>
        (r, map (\<lambda>e. (IScoreDetails.user_id e, IScoreDetails.score e))
              (WriteAheadLog_recover None w fs))) =
   (Inr (), [(''a'', NaN)])"
  by code_simp

text \<open>
  The time of an entry does not come back either: \<^verbatim>\<open>append\<close> writes the date as text and
  \<^verbatim>\<open>recover\<close> reads it with \<^verbatim>\<open>parseInt\<close>.
\<close>

lemma ctime_not_restored:
  "(case WriteAheadLog_append utc None entry_u1_10 (WriteAheadLog_new ''g1'', Map.empty) of
      (r, w, fs) \<Rightarrow> map ctime (WriteAheadLog_recover None w fs)) = [Date None]"
  by code_simp

lemma decimal_of_Number_toString: "decimal_of (Number_toString (Num n)) n"
proof -
  let ?ds = "digits (nat \<bar>n\<bar>)"
  have "Number_toString (Num n) = (if n < 0 then ''-'' else []) @ ?ds"
    by (cases "n < 0") (simp_all add: abs_if)
  moreover have "?ds \<noteq> []" by (rule digits_nonempty)
  moreover have "list_all (is_digit 10) ?ds" using digits_all by (simp add: list_all_iff)
  moreover have "int (digits_value 10 ?ds) = \<bar>n\<bar>" by (simp add: digits_value_digits)
  ultimately show ?thesis unfolding decimal_of_def by blast
qed

text \<open>
  C4 (as amended): when \<^verbatim>\<open>append\<close> succeeds for an entry with an integer score of
  magnitude below \<open>2 ^ 53\<close>, what it adds to the file is the user id, the game id and the score as a base-10 integer, each
  followed by a comma and a space, then the rest of the record and a line feed.
\<close>

theorem C4_record_layout:
  assumes "writeQueue w = None" "IScoreDetails.score e = Num n" "safe_score (Num n)"
  shows "decimal_of (Number_toString (Num n)) n \<and>
         (\<exists>rest. WriteAheadLog_append tz None e (w, fs) =
            (Inr (), w,
             fs(walPath w \<mapsto>
                  (case fs (walPath w) of None \<Rightarrow> [] | Some c \<Rightarrow> c) @
                  IScoreDetails.user_id e @ '', '' @ String_of (IScoreDetails.game_id e) @ '', '' @
                  Number_toString (Num n) @ '', '' @ rest @ [CHR 0x0A])))"
proof
  show "decimal_of (Number_toString (Num n)) n" by (rule decimal_of_Number_toString)
  have "WriteAheadLog_append tz None e (w, fs) =
            (Inr (), w,
             fs(walPath w \<mapsto>
                  (case fs (walPath w) of None \<Rightarrow> [] | Some c \<Rightarrow> c) @
                  IScoreDetails.user_id e @ '', '' @ String_of (IScoreDetails.game_id e) @ '', '' @
                  Number_toString (Num n) @ '', '' @ Date_toString tz (ctime e) @ [CHR 0x0A]))"
    using assms(1,2)
    by (simp add: WriteAheadLog_append_def appendFile_def logLine_def fun_eq_iff
          del: Number_toString.simps split: option.split)
  then show "\<exists>rest. WriteAheadLog_append tz None e (w, fs) =
            (Inr (), w,
             fs(walPath w \<mapsto>
                  (case fs (walPath w) of None \<Rightarrow> [] | Some c \<Rightarrow> c) @
                  IScoreDetails.user_id e @ '', '' @ String_of (IScoreDetails.game_id e) @ '', '' @
                  Number_toString (Num n) @ '', '' @ rest @ [CHR 0x0A]))"
    by blast
qed

theorem C4_record_layout_witness:
  "writeQueue (WriteAheadLog_new ''g1'') = None \<and> IScoreDetails.score entry_u1_10 = Num 10 \<and>
   safe_score (Num 10) \<and> decimal_of ''10'' 10 \<and>
   (\<exists>rest. WriteAheadLog_append utc None entry_u1_10 (WriteAheadLog_new ''g1'', Map.empty) =
      (Inr (), WriteAheadLog_new ''g1'',
       [''data/g1.wal'' \<mapsto> ''u1, g1, 10, '' @ rest @ [CHR 0x0A]]))"
proof -
  have h1: "writeQueue (WriteAheadLog_new ''g1'') = None" by (simp add: WriteAheadLog_new_def)
  have h2: "IScoreDetails.score entry_u1_10 = Num 10" by (simp add: entry_u1_10_def)
  have h3: "safe_score (Num 10)" by (simp add: safe_score_def)
  have d: "Number_toString (Num 10) = ''10''" by code_simp
  from C4_record_layout [OF h1 h2 h3, of utc Map.empty] h1 h2 h3 show ?thesis
    unfolding d by (simp add: entry_u1_10_def WriteAheadLog_new_def String_of_def)
qed

text \<open>
  C4 as stated fails: the record written for \<open>(u1, g1, 10)\<close> holds the game id and no tab,
  and differs from the record of the specification; a user id with a comma is written
  as it is.
\<close>

theorem C4_record_counterexample:
  "snd (snd (WriteAheadLog_append utc None entry_u1_10 (WriteAheadLog_new ''g1'', Map.empty)))
     ''data/g1.wal'' =
     Some ''u1, g1, 10, Thu Jan 01 1970 00:00:00 GMT+0000 (Coordinated Universal Time)\<newline>'' \<and>
   spec_record entry_u1_10 = ''u1'' @ [CHR 0x09] @ ''10'' @ [CHR 0x09] @ ''0'' @ [CHR 0x0A] \<and>
   CHR 0x09 \<notin> set (logLine utc entry_u1_10) \<and>
   logLine utc entry_comma =
     ''a,b, g1, 10, Thu Jan 01 1970 00:00:00 GMT+0000 (Coordinated Universal Time)\<newline>''"
  by code_simp

end
